theory Spec2Isabelle
  imports Complex_Main "HOL-Library.AList"
begin

section \<open>Python strings and dictionaries\<close>

text \<open>
  A Python \<open>str\<close> is a sequence of Unicode code points, so a character is a natural
  number and a string is a list of them. \<open>len\<close> is \<open>length\<close>.
  A \<open>dict\<close> keeps its keys in insertion order and overwrites in place; it is an
  association list written with \<open>AList.update\<close> and read with \<open>map_of\<close>.
\<close>

type_synonym ustring = "nat list"

type_synonym 'v pydict = "(int \<times> 'v) list"

text \<open>\<open>str.isspace\<close> for one character: the code points CPython lists as whitespace.\<close>

definition py_isspace :: "nat \<Rightarrow> bool" where
  "py_isspace c \<longleftrightarrow>
     (9 \<le> c \<and> c \<le> 13) \<or> (28 \<le> c \<and> c \<le> 32) \<or> c = 133 \<or> c = 160 \<or> c = 5760 \<or>
     (8192 \<le> c \<and> c \<le> 8202) \<or> c = 8232 \<or> c = 8233 \<or> c = 8239 \<or> c = 8287 \<or> c = 12288"

text \<open>\<open>s.strip()\<close>: whitespace removed at both ends.\<close>

definition py_strip :: "ustring \<Rightarrow> ustring" where
  "py_strip s = rev (dropWhile py_isspace (rev (dropWhile py_isspace s)))"

text \<open>
  \<open>s.split()\<close>: the maximal runs of non-whitespace characters, in order. \<open>cur\<close> is
  the word being read.
\<close>

primrec split_from :: "ustring \<Rightarrow> ustring \<Rightarrow> ustring list" where
  "split_from cur [] = (if cur = [] then [] else [cur])"
| "split_from cur (c # cs) =
     (if py_isspace c then (if cur = [] then split_from [] cs else cur # split_from [] cs)
      else split_from (cur @ [c]) cs)"

definition py_split :: "ustring \<Rightarrow> ustring list" where
  "py_split s = split_from [] s"

text \<open>\<open>sep.join(words)\<close>.\<close>

fun py_join :: "ustring \<Rightarrow> ustring list \<Rightarrow> ustring" where
  "py_join sep [] = []"
| "py_join sep [w] = w"
| "py_join sep (w # v # ws) = w @ sep @ py_join sep (v # ws)"

text \<open>
  The exceptions the modelled code raises. The handlers of the services re-raise every
  exception as \<open>RuntimeError\<close> with the cause in its message; the cause is kept as
  the argument. \<open>LookupError\<close> is the common base class of \<open>KeyError\<close> and \<open>IndexError\<close>.
\<close>

datatype error = ZeroDivisionError | ValueError | KeyError | LookupError | RuntimeError error

section \<open>The normalizer: \<open>data/shared/text_processing.py\<close>\<close>

text \<open>
  The module matches with the third-party \<open>regex\<close> library. Its class \<open>\s\<close> is
  taken to be the Unicode White_Space property, which is \<open>str.isspace\<close> without the
  four separators 28 to 31; these are no word characters, so they end up as spaces
  either way. Its class \<open>\w\<close> is fixed on ASCII (letters, digits, underscore); beyond
  ASCII it is a table of the library, which is the parameter \<open>W\<close> of every function
  that uses it.
\<close>

definition regex_space :: "nat \<Rightarrow> bool" where
  "regex_space c \<longleftrightarrow>
     (9 \<le> c \<and> c \<le> 13) \<or> c = 32 \<or> c = 133 \<or> c = 160 \<or> c = 5760 \<or>
     (8192 \<le> c \<and> c \<le> 8202) \<or> c = 8232 \<or> c = 8233 \<or> c = 8239 \<or> c = 8287 \<or> c = 12288"

definition regex_word :: "(nat \<Rightarrow> bool) \<Rightarrow> nat \<Rightarrow> bool" where
  "regex_word W c \<longleftrightarrow>
     (if c < 128 then (48 \<le> c \<and> c \<le> 57) \<or> (65 \<le> c \<and> c \<le> 90) \<or> (97 \<le> c \<and> c \<le> 122) \<or> c = 95
      else W c)"

text \<open>
  A value for \<open>W\<close> in worked examples: the letters of the Latin-1, Latin Extended-A,
  Latin Extended-B and Latin Extended Additional blocks, which hold every Vietnamese
  letter.
\<close>

definition latin_letters :: "nat \<Rightarrow> bool" where
  "latin_letters c \<longleftrightarrow> (192 \<le> c \<and> c \<le> 591 \<and> c \<noteq> 215 \<and> c \<noteq> 247) \<or> (7680 \<le> c \<and> c \<le> 7935)"

text \<open>
  \<open>remove_html_tags\<close>: \<open>re.sub(r"<[^>]*>", "", text)\<close>. A match starts at a \<open><\<close>
  (60) that has a \<open>>\<close> (62) somewhere after it and runs to the first such \<open>>\<close>;
  the scan resumes behind the match.
\<close>

function remove_html_tags :: "ustring \<Rightarrow> ustring" where
  "remove_html_tags [] = []"
| "remove_html_tags (c # cs) =
     (if c = 60 \<and> 62 \<in> set cs then remove_html_tags (tl (dropWhile (\<lambda>x. x \<noteq> 62) cs))
      else c # remove_html_tags cs)"
  by pat_completeness auto
termination
proof (relation "measure length")
  show "wf (measure length)" by simp
next
  fix c :: nat and cs :: "nat list"
  have "length (tl (dropWhile (\<lambda>x. x \<noteq> 62) cs)) \<le> length (dropWhile (\<lambda>x. x \<noteq> 62) cs)"
    by simp
  also have "\<dots> \<le> length cs" by (rule length_dropWhile_le)
  finally show "(tl (dropWhile (\<lambda>x. x \<noteq> 62) cs), c # cs) \<in> measure length" by simp
next
  fix c :: nat and cs :: "nat list"
  show "(cs, c # cs) \<in> measure length" by simp
qed

text \<open>
  \<open>convert_unicode\<close>. The keys \<open>char1252\<close> are decomposed letters (a base letter and
  one combining tone mark), the values \<open>charutf8\<close> the composed letters.
  Every key has two characters, so the substitution looks at two characters at a time.
\<close>

definition char1252 :: "ustring list" where
  "char1252 =
    [[97, 768], [97, 769], [97, 777], [97, 771], [97, 803], [226, 768],
     [226, 769], [226, 777], [226, 771], [226, 803], [259, 768], [259, 769],
     [259, 777], [259, 771], [259, 803], [101, 768], [101, 769], [101, 777],
     [101, 771], [101, 803], [234, 768], [234, 769], [234, 777], [234, 771],
     [234, 803], [105, 768], [105, 769], [105, 777], [105, 771], [105, 803],
     [111, 768], [111, 769], [111, 777], [111, 771], [111, 803], [244, 768],
     [244, 769], [244, 777], [244, 771], [244, 803], [417, 768], [417, 769],
     [417, 777], [417, 771], [417, 803], [117, 768], [117, 769], [117, 777],
     [117, 771], [117, 803], [432, 768], [432, 769], [432, 777], [432, 771],
     [432, 803], [121, 768], [121, 769], [121, 777], [121, 771], [121, 803],
     [65, 768], [65, 769], [65, 777], [65, 771], [65, 803], [194, 768],
     [194, 769], [194, 777], [194, 771], [194, 803], [258, 768], [258, 769],
     [258, 777], [258, 771], [258, 803], [69, 768], [69, 769], [69, 777],
     [69, 771], [69, 803], [202, 768], [202, 769], [202, 777], [202, 771],
     [202, 803], [73, 768], [73, 769], [73, 777], [73, 771], [73, 803],
     [79, 768], [79, 769], [79, 777], [79, 771], [79, 803], [212, 768],
     [212, 769], [212, 777], [212, 771], [212, 803], [416, 768], [416, 769],
     [416, 777], [416, 771], [416, 803], [85, 768], [85, 769], [85, 777],
     [85, 771], [85, 803], [431, 768], [431, 769], [431, 777], [431, 771],
     [431, 803], [89, 768], [89, 769], [89, 777], [89, 771], [89, 803]]"

definition charutf8 :: "ustring list" where
  "charutf8 =
    [[224], [225], [7843], [227], [7841], [7847], [7845], [7849], [7851], [7853], [7857], [7855],
     [7859], [7861], [7863], [232], [233], [7867], [7869], [7865], [7873], [7871], [7875], [7877],
     [7879], [236], [237], [7881], [297], [7883], [242], [243], [7887], [245], [7885], [7891],
     [7889], [7893], [7895], [7897], [7901], [7899], [7903], [7905], [7907], [249], [250], [7911],
     [361], [7909], [7915], [7913], [7917], [7919], [7921], [7923], [253], [7927], [7929], [7925],
     [192], [193], [7842], [195], [7840], [7846], [7844], [7848], [7850], [7852], [7856], [7854],
     [7858], [7860], [7862], [200], [201], [7866], [7868], [7864], [7872], [7870], [7874], [7876],
     [7878], [204], [205], [7880], [296], [7882], [210], [211], [7886], [213], [7884], [7890],
     [7888], [7892], [7894], [7896], [7900], [7898], [7902], [7904], [7906], [217], [218], [7910],
     [360], [7908], [7914], [7912], [7916], [7918], [7920], [7922], [221], [7926], [7928], [7924]]"

definition conversion_dict :: "(ustring \<times> ustring) list" where
  "conversion_dict = zip char1252 charutf8"

fun convert_unicode :: "ustring \<Rightarrow> ustring" where
  "convert_unicode (a # b # cs) =
     (case map_of conversion_dict [a, b] of
        Some v \<Rightarrow> v @ convert_unicode cs
      | None \<Rightarrow> a # convert_unicode (b # cs))"
| "convert_unicode cs = cs"

text \<open>
  \<open>vowels_table\<close>, with its seven columns, and \<open>vowels_to_ids\<close>, the dictionary
  built from all columns but the last (\<open>row[:-1]\<close>); a later entry would overwrite an
  earlier one.
\<close>

definition vowels_table :: "ustring list list" where
  "vowels_table =
    [[[97], [224], [225], [7843], [227], [7841], [97]],
     [[259], [7857], [7855], [7859], [7861], [7863], [97, 119]],
     [[226], [7847], [7845], [7849], [7851], [7853], [97, 97]],
     [[101], [232], [233], [7867], [7869], [7865], [101]],
     [[234], [7873], [7871], [7875], [7877], [7879], [101, 101]],
     [[105], [236], [237], [7881], [297], [7883], [105]],
     [[111], [242], [243], [7887], [245], [7885], [111]],
     [[244], [7891], [7889], [7893], [7895], [7897], [111, 111]],
     [[417], [7901], [7899], [7903], [7905], [7907], [111, 119]],
     [[117], [249], [250], [7911], [361], [7909], [117]],
     [[432], [7915], [7913], [7917], [7919], [7921], [117, 119]],
     [[121], [7923], [253], [7927], [7929], [7925], [121]]]"

definition vowels_to_ids :: "ustring \<Rightarrow> (nat \<times> nat) option" where
  "vowels_to_ids =
     map_of (rev [(vowel, (i, j)). (i, row) \<leftarrow> enumerate 0 vowels_table,
                                   (j, vowel) \<leftarrow> enumerate 0 (butlast row)])"

text \<open>
  \<open>vowels_table[row][col]\<close>, \<open>None\<close> where Python raises \<open>IndexError\<close>. In the
  functions below \<open>None\<close> always stands for a raised \<open>KeyError\<close> or \<open>IndexError\<close>.
\<close>

definition table_at :: "nat \<Rightarrow> nat \<Rightarrow> ustring option" where
  "table_at row col =
     (if row < length vowels_table \<and> col < length (vowels_table ! row)
      then Some (vowels_table ! row ! col) else None)"

text \<open>
  \<open>standardize_word_typing\<close>. \<open>chars = list(word)\<close> is a list of one-character
  strings. The first loop, \<open>for idx, char in enumerate(chars)\<close>, returns the updated
  \<open>chars\<close>, \<open>tone_mark\<close> and \<open>vowel_positions\<close>.
\<close>

fun scan_vowels :: "nat \<Rightarrow> ustring list \<Rightarrow> nat \<Rightarrow> nat list \<Rightarrow> (ustring list \<times> nat \<times> nat list) option" where
  "scan_vowels idx [] tone_mark vowel_positions = Some ([], tone_mark, vowel_positions)"
| "scan_vowels idx (char # rest) tone_mark vowel_positions =
     (case vowels_to_ids char of
        None \<Rightarrow>
          map_option (\<lambda>(cs, t, p). (char # cs, t, p))
            (scan_vowels (Suc idx) rest tone_mark vowel_positions)
      | Some (row, col) \<Rightarrow>
          if col \<noteq> 0
          then (case table_at row 0 of
                  None \<Rightarrow> None
                | Some base \<Rightarrow>
                    map_option (\<lambda>(cs, t, p). (base # cs, t, p))
                      (scan_vowels (Suc idx) rest col (vowel_positions @ [idx])))
          else map_option (\<lambda>(cs, t, p). (char # cs, t, p))
                 (scan_vowels (Suc idx) rest tone_mark (vowel_positions @ [idx])))"

text \<open>
  \<open>row, col = vowels_to_ids[chars[pos]]; chars[pos] = vowels_table[row][tone_mark]\<close>.
\<close>

definition put_tone :: "ustring list \<Rightarrow> nat \<Rightarrow> nat \<Rightarrow> ustring list option" where
  "put_tone chars pos tone_mark =
     (if pos < length chars
      then (case vowels_to_ids (chars ! pos) of
              None \<Rightarrow> None
            | Some (row, col) \<Rightarrow>
                (case table_at row tone_mark of
                   None \<Rightarrow> None
                 | Some v \<Rightarrow> Some (chars[pos := v])))
      else None)"

text \<open>
  The loop \<open>for pos in vowel_positions\<close> that returns at the first vowel of row 4 or 8;
  \<open>Some None\<close> when the loop ends without returning.
\<close>

fun priority_vowel :: "ustring list \<Rightarrow> nat \<Rightarrow> nat list \<Rightarrow> ustring list option option" where
  "priority_vowel chars tone_mark [] = Some None"
| "priority_vowel chars tone_mark (pos # rest) =
     (if pos < length chars
      then (case vowels_to_ids (chars ! pos) of
              None \<Rightarrow> None
            | Some (row, col) \<Rightarrow>
                if row = 4 \<or> row = 8
                then (case table_at row tone_mark of
                        None \<Rightarrow> None
                      | Some v \<Rightarrow> Some (Some (chars[pos := v])))
                else priority_vowel chars tone_mark rest)
      else None)"

definition standardize_word_typing :: "ustring \<Rightarrow> ustring option" where
  "standardize_word_typing word =
     (case scan_vowels 0 (map (\<lambda>c. [c]) word) 0 [] of
        None \<Rightarrow> None
      | Some (chars, tone_mark, vowel_positions) \<Rightarrow>
          if length vowel_positions < 2
          then (if vowel_positions \<noteq> []
                then map_option concat (put_tone chars (vowel_positions ! 0) tone_mark)
                else Some (concat chars))
          else (case priority_vowel chars tone_mark vowel_positions of
                  None \<Rightarrow> None
                | Some (Some done) \<Rightarrow> Some (concat done)
                | Some None \<Rightarrow> map_option concat (put_tone chars (vowel_positions ! 1) tone_mark)))"

definition standardize_sentence_typing :: "ustring \<Rightarrow> ustring option" where
  "standardize_sentence_typing txt =
     map_option (py_join [32]) (those (map standardize_word_typing (py_split txt)))"

text \<open>
  \<open>remove_unnecessary_characters\<close>. The letters listed in the character class
  \<open>[^\s\w...]\<close>, the underscore last; every character outside the class becomes a space,
  runs of \<open>\s\<close> become one space, and the result is stripped.
\<close>

definition vietnamese_letters :: "nat list" where
  "vietnamese_letters =
    [225, 224, 7843, 227, 7841, 259, 7855, 7857, 7859, 7861, 7863, 226,
     7845, 7847, 7849, 7851, 7853, 233, 232, 7867, 7869, 7865, 234, 7871,
     7873, 7875, 7877, 7879, 243, 242, 7887, 245, 7885, 244, 7889, 7891,
     7893, 7895, 7897, 417, 7899, 7901, 7903, 7905, 7907, 237, 236, 7881,
     297, 7883, 250, 249, 7911, 361, 7909, 432, 7913, 7915, 7917, 7919,
     7921, 253, 7923, 7927, 7929, 7925, 273, 95]"

definition kept_character :: "(nat \<Rightarrow> bool) \<Rightarrow> nat \<Rightarrow> bool" where
  "kept_character W c \<longleftrightarrow> regex_space c \<or> regex_word W c \<or> c \<in> set vietnamese_letters"

function collapse_spaces :: "ustring \<Rightarrow> ustring" where
  "collapse_spaces [] = []"
| "collapse_spaces (c # cs) =
     (if regex_space c then 32 # collapse_spaces (dropWhile regex_space cs)
      else c # collapse_spaces cs)"
  by pat_completeness auto
termination
proof (relation "measure length")
  show "wf (measure length)" by simp
next
  fix c :: nat and cs :: "nat list"
  have "length (dropWhile regex_space cs) \<le> length cs" by (rule length_dropWhile_le)
  then show "(dropWhile regex_space cs, c # cs) \<in> measure length" by simp
next
  fix c :: nat and cs :: "nat list"
  show "(cs, c # cs) \<in> measure length" by simp
qed

definition remove_unnecessary_characters :: "(nat \<Rightarrow> bool) \<Rightarrow> ustring \<Rightarrow> ustring" where
  "remove_unnecessary_characters W txt =
     py_strip (collapse_spaces (map (\<lambda>c. if kept_character W c then c else 32) txt))"

definition text_preprocess :: "(nat \<Rightarrow> bool) \<Rightarrow> ustring \<Rightarrow> ustring option" where
  "text_preprocess W txt =
     map_option (remove_unnecessary_characters W)
       (standardize_sentence_typing (convert_unicode (remove_html_tags txt)))"

section \<open>Acquisition, segmentation and filtering: \<open>data/pdf/pdf_processing.py\<close>\<close>

text \<open>
  A PDF is the list of the texts of its pages. pdfminer's \<open>extract_text\<close> gives the text
  of the pages whose zero-based index is in \<open>page_numbers\<close>, in document order, and of
  all pages when \<open>page_numbers\<close> is \<open>None\<close> or empty (its page loop skips a page
  under \<open>if pagenos and (pageno not in pagenos)\<close>).
\<close>

definition pdfminer_extract_text :: "ustring list \<Rightarrow> int list option \<Rightarrow> ustring" where
  "pdfminer_extract_text pages page_numbers =
     concat (map snd (filter (\<lambda>(i, page). case page_numbers of
                                              None \<Rightarrow> True
                                            | Some ns \<Rightarrow> ns = [] \<or> int i \<in> set ns)
                        (enumerate 0 pages)))"

text \<open>
  \<open>range(a, b)\<close>, and \<open>extract_text_from_pdf\<close> with its test
  \<open>start_page and end_page\<close>: \<open>None\<close> and 0 are falsy.
\<close>

definition py_range :: "int \<Rightarrow> int \<Rightarrow> int list" where
  "py_range a b = [a..b - 1]"

definition extract_text_from_pdf :: "ustring list \<Rightarrow> int option \<Rightarrow> int option \<Rightarrow> ustring" where
  "extract_text_from_pdf pdf_file start_page end_page =
     pdfminer_extract_text pdf_file
       (case (start_page, end_page) of
          (Some s, Some e) \<Rightarrow> if s \<noteq> 0 \<and> e \<noteq> 0 then Some (py_range s e) else None
        | _ \<Rightarrow> None)"

text \<open>
  \<open>extract_text_by_page\<close>, the page-wise extraction of the same module. The page count
  replaces a falsy \<open>end_page\<close>.
\<close>

definition extract_text_by_page :: "ustring list \<Rightarrow> int \<Rightarrow> int option \<Rightarrow> error + ustring list" where
  "extract_text_by_page pdf_file start_page end_page =
     (let total_pages = int (length pdf_file);
          end_page' = (case end_page of None \<Rightarrow> total_pages
                       | Some e \<Rightarrow> if e = 0 then total_pages else e)
      in if start_page < 1 \<or> end_page' < start_page then Inl ValueError
         else Inr (map (\<lambda>page_num. pdfminer_extract_text pdf_file (Some [page_num - 1]))
                     (py_range start_page (end_page' + 1))))"

text \<open>
  This module matches with Python's \<open>re\<close>. Its \<open>\d\<close> is a Unicode decimal digit,
  and \<open>int\<close> reads the same digits: the ASCII digits, and beyond ASCII a table of the
  interpreter, the parameter \<open>D\<close>, which gives a digit's value.
\<close>

definition digit_value :: "(nat \<Rightarrow> nat option) \<Rightarrow> nat \<Rightarrow> nat option" where
  "digit_value D c =
     (if 48 \<le> c \<and> c \<le> 57 then Some (c - 48) else if c < 128 then None else D c)"

definition is_digit :: "(nat \<Rightarrow> nat option) \<Rightarrow> nat \<Rightarrow> bool" where
  "is_digit D c \<longleftrightarrow> digit_value D c \<noteq> None"

text \<open>A value for \<open>D\<close> in worked examples: no digit beyond ASCII.\<close>

definition ascii_digits_only :: "nat \<Rightarrow> nat option" where
  "ascii_digits_only c = None"

text \<open>
  \<open>extract_laws_from_text\<close>. The pattern is
  \<open>(Dieu \d+\..*?)(?=(Dieu \d+\.|\Z))\<close> with DOTALL, where \<open>Dieu\<close> stands for the
  four letters 272, 105, 7873, 117 of the Vietnamese word.
  \<open>marker_digits\<close> is \<open>re.match(r"Dieu (\d+)", s)\<close>: its group 1 if it matches.
  \<open>marker_at\<close> is the header \<open>Dieu \d+\.\<close> at the start of \<open>s\<close>: its length if it
  matches. \<open>\d+\<close> is greedy and the full stop (46) is no digit, so the header matches
  only with the whole run of digits.
\<close>

definition dieu :: ustring where
  "dieu = [272, 105, 7873, 117, 32]"

definition marker_digits :: "(nat \<Rightarrow> nat option) \<Rightarrow> ustring \<Rightarrow> ustring option" where
  "marker_digits D s =
     (if take 5 s = dieu \<and> takeWhile (is_digit D) (drop 5 s) \<noteq> []
      then Some (takeWhile (is_digit D) (drop 5 s)) else None)"

definition marker_at :: "(nat \<Rightarrow> nat option) \<Rightarrow> ustring \<Rightarrow> nat option" where
  "marker_at D s =
     (case marker_digits D s of
        None \<Rightarrow> None
      | Some ds \<Rightarrow>
          (case drop (5 + length ds) s of
             [] \<Rightarrow> None
           | c # rest \<Rightarrow> if c = 46 then Some (5 + length ds + 1) else None))"

text \<open>
  \<open>.*?\<close> before the lookahead: the number of characters up to the next header or the
  end of the text.
\<close>

fun lazy_body :: "(nat \<Rightarrow> nat option) \<Rightarrow> ustring \<Rightarrow> nat" where
  "lazy_body D [] = 0"
| "lazy_body D (c # cs) = (if marker_at D (c # cs) \<noteq> None then 0 else Suc (lazy_body D cs))"

text \<open>
  \<open>re.finditer\<close>: the matches from left to right, none overlapping. A match at
  \<open>c # cs\<close> has \<open>m\<close> characters, \<open>c\<close> the first, and the scan resumes behind it.
\<close>

function finditer :: "(nat \<Rightarrow> nat option) \<Rightarrow> ustring \<Rightarrow> ustring list" where
  "finditer D [] = []"
| "finditer D (c # cs) =
     (case marker_at D (c # cs) of
        None \<Rightarrow> finditer D cs
      | Some n \<Rightarrow>
          (let m = n + lazy_body D (drop n (c # cs))
           in take m (c # cs) # finditer D (drop (m - 1) cs)))"
  by pat_completeness auto
termination
  by (relation "measure (\<lambda>(D, s). length s)") auto

text \<open>
  \<open>int(...)\<close> of a run of digits, and the loop over the matches. \<open>None\<close> stands for
  the exception of \<open>.group\<close> on a failed \<open>re.match\<close>; the handler of
  \<open>extract_laws_from_text\<close> then returns the empty dictionary. The interpreter's
  configurable limit on the length of a digit string given to \<open>int\<close> is left out.
\<close>

definition int_of_digits :: "(nat \<Rightarrow> nat option) \<Rightarrow> ustring \<Rightarrow> int" where
  "int_of_digits D ds = int (fold (\<lambda>c n. 10 * n + the (digit_value D c)) ds 0)"

fun laws_loop :: "(nat \<Rightarrow> nat option) \<Rightarrow> ustring list \<Rightarrow> ustring pydict \<Rightarrow> ustring pydict option" where
  "laws_loop D [] law_dict = Some law_dict"
| "laws_loop D (m # ms) law_dict =
     (case marker_digits D m of
        None \<Rightarrow> None
      | Some ds \<Rightarrow> laws_loop D ms (AList.update (int_of_digits D ds) (py_strip m) law_dict))"

definition extract_laws_from_text :: "(nat \<Rightarrow> nat option) \<Rightarrow> ustring \<Rightarrow> ustring pydict" where
  "extract_laws_from_text D txt =
     (case laws_loop D (finditer D txt) [] of None \<Rightarrow> [] | Some law_dict \<Rightarrow> law_dict)"

text \<open>
  \<open>count_words_in_text\<close> and \<open>filter_laws_by_length\<close>, a dictionary comprehension
  over \<open>laws.items()\<close>. The values are strings, so \<open>isinstance(text, str)\<close> holds.
\<close>

definition count_words_in_text :: "ustring \<Rightarrow> nat" where
  "count_words_in_text txt = length (py_split txt)"

fun filter_laws_by_length :: "(nat \<Rightarrow> bool) \<Rightarrow> ustring pydict \<Rightarrow> int \<Rightarrow> ustring pydict option" where
  "filter_laws_by_length W [] min_length = Some []"
| "filter_laws_by_length W ((number, content) # rest) min_length =
     (if int (count_words_in_text content) \<ge> min_length
      then (case text_preprocess W content of
              None \<Rightarrow> None
            | Some t \<Rightarrow> map_option ((#) (number, t)) (filter_laws_by_length W rest min_length))
      else filter_laws_by_length W rest min_length)"

text \<open>
  \<open>process_file\<close> of \<open>service/file_processing_service.py\<close>. The uploaded file is
  given by the text layer of its pages and by the text the image and OCR path returns
  for it; \<open>acquire_text\<close> is the branch on \<open>file_type\<close>. Saving the upload and the
  calls of the OCR engine are outside the model. Every exception is re-raised
  as \<open>RuntimeError\<close>; \<open>LookupError\<close> stands for a \<open>KeyError\<close> or \<open>IndexError\<close> of the
  normalizer.
\<close>

record upload =
  pdf_pages :: "ustring list"
  ocr_text :: ustring

definition acquire_text :: "upload \<Rightarrow> string \<Rightarrow> int option \<Rightarrow> int option \<Rightarrow> ustring" where
  "acquire_text file file_type start_page end_page =
     (if file_type = ''pdf'' then extract_text_from_pdf (pdf_pages file) start_page end_page
      else ocr_text file)"

definition process_file ::
  "(nat \<Rightarrow> nat option) \<Rightarrow> (nat \<Rightarrow> bool) \<Rightarrow> upload \<Rightarrow> string \<Rightarrow> int option \<Rightarrow> int option \<Rightarrow> int
     \<Rightarrow> error + ustring pydict" where
  "process_file D W file file_type start_page end_page min_word =
     (let extracted_text = acquire_text file file_type start_page end_page
      in if extracted_text = [] then Inl (RuntimeError ValueError)
         else (let split_content = extract_laws_from_text D extracted_text
               in if split_content = [] then Inl (RuntimeError ValueError)
                  else (case filter_laws_by_length W split_content min_word of
                          None \<Rightarrow> Inl (RuntimeError LookupError)
                        | Some filtered_text \<Rightarrow> Inr filtered_text)))"

text \<open>
  A text contains a boundary marker when the header matches at some position of it.
\<close>

fun has_marker :: "(nat \<Rightarrow> nat option) \<Rightarrow> ustring \<Rightarrow> bool" where
  "has_marker D [] = False"
| "has_marker D (c # cs) = (marker_at D (c # cs) \<noteq> None \<or> has_marker D cs)"

section \<open>Reconciliation: \<open>service/worker_update.py\<close>\<close>

text \<open>
  \<open>Levenshtein.distance\<close> of rapidfuzz with its default weights: the least number of
  single-character insertions, deletions and substitutions.
\<close>

fun levenshtein :: "'a list \<Rightarrow> 'a list \<Rightarrow> nat" where
  "levenshtein [] ys = length ys"
| "levenshtein (x # xs) [] = Suc (length xs)"
| "levenshtein (x # xs) (y # ys) =
     min (min (levenshtein xs (y # ys) + 1) (levenshtein (x # xs) ys + 1))
         (levenshtein xs ys + (if x = y then 0 else 1))"

text \<open>
  \<open>get_similarity\<close>. The division is Python's true division, which raises on a zero
  divisor. The quotient is a Python float; the model computes it exactly, as a rational.
\<close>

definition get_similarity :: "ustring \<Rightarrow> ustring \<Rightarrow> error + rat" where
  "get_similarity old_content new_content =
     (let distance = levenshtein old_content new_content;
          longest = max (length new_content) (length old_content)
      in if longest = 0 then Inl ZeroDivisionError
         else Inr (1 - of_nat distance / of_nat longest))"

text \<open>
  The Weaviate index behind \<open>weaviate_instance\<close>: the stored objects, each with the
  properties \<open>law_number\<close> and \<open>text\<close> (a property may be missing, \<open>doc.get\<close> then
  gives \<open>None\<close>), together with the calls issued to the adapter so far. The index and
  the embedding model are external services; their calls are taken to return normally,
  and the exceptions of the model are those the repository's own code raises.
\<close>

record document =
  doc_law_number :: "int option"
  doc_text :: "ustring option"

datatype store_call = Delete int | Append int ustring

fun call_key :: "store_call \<Rightarrow> int" where
  "call_key (Delete k) = k"
| "call_key (Append k t) = k"

text \<open>
  A \<open>WorkerUpdate\<close> instance with the index it writes to. \<open>__init__\<close> sets
  \<open>low_similarity_laws\<close> to the empty list; no other statement of the class assigns it.
\<close>

record worker_update =
  low_similarity_laws :: "int list"
  documents :: "document list"
  calls :: "store_call list"

definition init_worker :: "document list \<Rightarrow> worker_update" where
  "init_worker docs = \<lparr>low_similarity_laws = [], documents = docs, calls = []\<rparr>"

text \<open>
  \<open>get_existing_laws\<close>: one dictionary entry per stored object whose \<open>law_number\<close>
  and \<open>text\<close> are both truthy (present, the number not 0, the text not empty); a later
  object overwrites an earlier one with the same number.
\<close>

definition existing_step :: "document \<Rightarrow> ustring pydict \<Rightarrow> ustring pydict" where
  "existing_step doc existing_laws =
     (case (doc_law_number doc, doc_text doc) of
        (Some n, Some t) \<Rightarrow> if n \<noteq> 0 \<and> t \<noteq> [] then AList.update n t existing_laws else existing_laws
      | _ \<Rightarrow> existing_laws)"

definition get_existing_laws :: "document list \<Rightarrow> ustring pydict" where
  "get_existing_laws docs = fold existing_step docs []"

text \<open>
  \<open>embed_and_save\<close>: blank content raises \<open>ValueError\<close>, re-raised as \<open>RuntimeError\<close>;
  otherwise one object with the stripped text is appended to the index.
\<close>

definition embed_and_save :: "int \<Rightarrow> ustring \<Rightarrow> worker_update \<Rightarrow> error + worker_update" where
  "embed_and_save law_number content w =
     (if py_strip content = [] then Inl (RuntimeError ValueError)
      else Inr (w\<lparr>documents := documents w @
                     [\<lparr>doc_law_number = Some law_number, doc_text = Some (py_strip content)\<rparr>],
                  calls := calls w @ [Append law_number (py_strip content)]\<rparr>))"

text \<open>
  The adapter's \<open>delete_law_number\<close> removes every object stored under the number;
  \<open>delete_low_similarity_laws\<close> calls it for each listed number, in order.
\<close>

definition delete_law_number :: "int \<Rightarrow> worker_update \<Rightarrow> worker_update" where
  "delete_law_number law_number w =
     w\<lparr>documents := filter (\<lambda>d. doc_law_number d \<noteq> Some law_number) (documents w),
       calls := calls w @ [Delete law_number]\<rparr>"

definition delete_low_similarity_laws :: "worker_update \<Rightarrow> worker_update" where
  "delete_low_similarity_laws w = fold delete_law_number (low_similarity_laws w) w"

text \<open>
  The first loop of \<open>update_laws\<close>, over \<open>new_laws.items()\<close>. An exception leaves the
  loop with the state reached so far.
\<close>

fun compare_laws :: "ustring pydict \<Rightarrow> ustring pydict \<Rightarrow> worker_update \<Rightarrow> error option \<times> worker_update" where
  "compare_laws existing_laws [] w = (None, w)"
| "compare_laws existing_laws ((law_number, new_content) # rest) w =
     (case map_of existing_laws law_number of
        Some old_content \<Rightarrow>
          (case get_similarity old_content new_content of
             Inl e \<Rightarrow> (Some e, w)
           | Inr similarity \<Rightarrow>
               if similarity \<le> 85 / 100
               then compare_laws existing_laws rest
                      (w\<lparr>low_similarity_laws := low_similarity_laws w @ [law_number]\<rparr>)
               else compare_laws existing_laws rest w)
      | None \<Rightarrow>
          (case embed_and_save law_number new_content w of
             Inl e \<Rightarrow> (Some e, w)
           | Inr w' \<Rightarrow> compare_laws existing_laws rest w'))"

text \<open>
  The last loop of \<open>update_laws\<close>, over \<open>low_similarity_laws\<close>:
  \<open>embed_and_save(law_number, new_laws[law_number])\<close>; a missing key raises \<open>KeyError\<close>.
\<close>

fun reembed_laws :: "int list \<Rightarrow> ustring pydict \<Rightarrow> worker_update \<Rightarrow> error option \<times> worker_update" where
  "reembed_laws [] new_laws w = (None, w)"
| "reembed_laws (law_number # rest) new_laws w =
     (case map_of new_laws law_number of
        None \<Rightarrow> (Some KeyError, w)
      | Some content \<Rightarrow>
          (case embed_and_save law_number content w of
             Inl e \<Rightarrow> (Some e, w)
           | Inr w' \<Rightarrow> reembed_laws rest new_laws w'))"

text \<open>
  \<open>update_laws\<close>. The result is the exception raised, if any, and the state left
  behind: what was issued before an exception stays issued.
\<close>

definition update_laws :: "ustring pydict \<Rightarrow> worker_update \<Rightarrow> error option \<times> worker_update" where
  "update_laws new_laws w =
     (let existing_laws = get_existing_laws (documents w)
      in case compare_laws existing_laws new_laws w of
           (Some e, w1) \<Rightarrow> (Some (RuntimeError e), w1)
         | (None, w1) \<Rightarrow>
             (let w2 = delete_low_similarity_laws w1
              in case reembed_laws (low_similarity_laws w2) new_laws w2 of
                   (Some e, w3) \<Rightarrow> (Some (RuntimeError e), w3)
                 | (None, w3) \<Rightarrow> (None, w3)))"

section \<open>The specification's reconciliation decision\<close>

text \<open>
  The decision as the specification words it: not present in \<open>existing\<close> gives Insert;
  present gives Update for a score of at most 0.85 and Skip above, the score being
  1 minus the edit distance over the longer length.
\<close>

datatype action = Insert | Update | Skip

definition spec_similarity :: "ustring \<Rightarrow> ustring \<Rightarrow> rat" where
  "spec_similarity old new =
     1 - of_nat (levenshtein old new) / of_nat (max (length old) (length new))"

definition spec_decision :: "ustring pydict \<Rightarrow> int \<Rightarrow> ustring \<Rightarrow> action" where
  "spec_decision existing law_number content =
     (case map_of existing law_number of
        None \<Rightarrow> Insert
      | Some old \<Rightarrow> if spec_similarity old content \<le> 85 / 100 then Update else Skip)"

text \<open>
  Vocabulary for the statements: a batch without blank content, the calls issued between
  two states, the calls and the stored objects of one key.
\<close>

definition nonblank :: "ustring pydict \<Rightarrow> bool" where
  "nonblank new_laws \<longleftrightarrow> list_all (\<lambda>(k, c). py_strip c \<noteq> []) new_laws"

definition issued :: "worker_update \<Rightarrow> worker_update \<Rightarrow> store_call list" where
  "issued w w' = drop (length (calls w)) (calls w')"

definition calls_on :: "int \<Rightarrow> store_call list \<Rightarrow> store_call list" where
  "calls_on k cs = filter (\<lambda>c. call_key c = k) cs"

definition stored :: "int \<Rightarrow> worker_update \<Rightarrow> document list" where
  "stored k w = filter (\<lambda>d. doc_law_number d = Some k) (documents w)"

definition good_existing :: "ustring pydict \<Rightarrow> bool" where
  "good_existing ex \<longleftrightarrow> (\<forall>k t. map_of ex k = Some t \<longrightarrow> t \<noteq> [])"

definition inserted :: "ustring pydict \<Rightarrow> ustring pydict \<Rightarrow> ustring pydict" where
  "inserted ex new = filter (\<lambda>(k, c). spec_decision ex k c = Insert) new"

definition updated :: "ustring pydict \<Rightarrow> ustring pydict \<Rightarrow> ustring pydict" where
  "updated ex new = filter (\<lambda>(k, c). spec_decision ex k c = Update) new"

definition as_append :: "int \<times> ustring \<Rightarrow> store_call" where
  "as_append p = Append (fst p) (py_strip (snd p))"

definition as_document :: "int \<times> ustring \<Rightarrow> document" where
  "as_document p = \<lparr>doc_law_number = Some (fst p), doc_text = Some (py_strip (snd p))\<rparr>"

definition discard_keys :: "int list \<Rightarrow> document list \<Rightarrow> document list" where
  "discard_keys ks ds = filter (\<lambda>d. \<forall>k \<in> set ks. doc_law_number d \<noteq> Some k) ds"

section \<open>Vocabulary for the normalizer\<close>

text \<open>
  The entries of \<open>vowels_to_ids\<close> in the order of the comprehension.
\<close>

definition vowel_entries :: "(ustring \<times> nat \<times> nat) list" where
  "vowel_entries = [(vowel, (i, j)). (i, row) \<leftarrow> enumerate 0 vowels_table,
                                   (j, vowel) \<leftarrow> enumerate 0 (butlast row)]"

text \<open>
  What \<open>standardize_word_typing\<close> computes, in closed form: a vowel without its tone
  (column 0 of its row), a vowel with a tone, the row of a vowel, the tone mark left by
  the first loop, the positions of the vowels, the position that receives the tone, and
  the resulting list of characters.
\<close>

definition untoned :: "ustring \<Rightarrow> ustring" where
  "untoned s = (case vowels_to_ids s of
                  Some (row, col) \<Rightarrow> (case table_at row 0 of Some b \<Rightarrow> b | None \<Rightarrow> s)
                | None \<Rightarrow> s)"

definition toned :: "ustring \<Rightarrow> nat \<Rightarrow> ustring" where
  "toned s t = (case vowels_to_ids s of
                  Some (row, col) \<Rightarrow> (case table_at row t of Some v \<Rightarrow> v | None \<Rightarrow> s)
                | None \<Rightarrow> s)"

definition vowel_row :: "ustring \<Rightarrow> nat option" where
  "vowel_row s = map_option fst (vowels_to_ids s)"

fun final_tone :: "ustring list \<Rightarrow> nat \<Rightarrow> nat" where
  "final_tone [] t = t"
| "final_tone (c # cs) t =
     (case vowels_to_ids c of
        Some (row, col) \<Rightarrow> if col \<noteq> 0 then final_tone cs col else final_tone cs t
      | None \<Rightarrow> final_tone cs t)"

fun vowel_indices :: "nat \<Rightarrow> ustring list \<Rightarrow> nat list" where
  "vowel_indices idx [] = []"
| "vowel_indices idx (c # cs) =
     (if vowels_to_ids c \<noteq> None then idx # vowel_indices (Suc idx) cs
      else vowel_indices (Suc idx) cs)"

definition tone_position :: "ustring list \<Rightarrow> nat list \<Rightarrow> nat option" where
  "tone_position chars ps =
     (if length ps < 2 then (if ps \<noteq> [] then Some (ps ! 0) else None)
      else (case find (\<lambda>p. vowel_row (chars ! p) = Some 4 \<or> vowel_row (chars ! p) = Some 8) ps of
              Some p \<Rightarrow> Some p
            | None \<Rightarrow> Some (ps ! 1)))"

definition retoned :: "ustring list \<Rightarrow> ustring list" where
  "retoned chars =
     (let base = map untoned chars; t = final_tone chars 0; ps = vowel_indices 0 chars
      in case tone_position base ps of
           None \<Rightarrow> base
         | Some p \<Rightarrow> base[p := toned (base ! p) t])"

definition standardized :: "ustring \<Rightarrow> ustring" where
  "standardized w = concat (retoned (map (\<lambda>c. [c]) w))"

text \<open>
  The five combining tone marks that end the keys of \<open>convert_unicode\<close>. A character
  is solid when it is no whitespace, the last step of the normalizer keeps it, and it is
  no combining tone mark. A text is clean when each of its characters is whitespace or
  solid; a list of words is normal when the words are non-empty and solid throughout.
\<close>

definition tone_marks :: "nat list" where
  "tone_marks = [768, 769, 771, 777, 803]"

definition solid :: "(nat \<Rightarrow> bool) \<Rightarrow> nat \<Rightarrow> bool" where
  "solid W c \<longleftrightarrow> \<not> py_isspace c \<and> (regex_word W c \<or> c \<in> set vietnamese_letters) \<and> c \<notin> set tone_marks"

definition clean :: "(nat \<Rightarrow> bool) \<Rightarrow> ustring \<Rightarrow> bool" where
  "clean W s \<longleftrightarrow> list_all (\<lambda>c. py_isspace c \<or> solid W c) s"

definition normal :: "(nat \<Rightarrow> bool) \<Rightarrow> ustring list \<Rightarrow> bool" where
  "normal W ws \<longleftrightarrow> (\<forall>w \<in> set ws. w \<noteq> [] \<and> (\<forall>c \<in> set w. solid W c))"

section \<open>Reconciliation: what one batch issues\<close>

lemma fold_existing_nonempty:
  "(\<And>k t. map_of acc k = Some t \<Longrightarrow> t \<noteq> []) \<Longrightarrow>
   map_of (fold existing_step docs acc) k = Some t \<Longrightarrow> t \<noteq> []"
proof (induction docs arbitrary: acc)
  case Nil
  then show ?case by simp
next
  case (Cons d docs)
  have "\<And>k t. map_of (existing_step d acc) k = Some t \<Longrightarrow> t \<noteq> []"
    using Cons.prems(1)
    by (auto simp: existing_step_def update_conv' split: option.splits if_splits)
  from Cons.IH[OF this] Cons.prems(2) show ?case by simp
qed

lemma existing_text_nonempty:
  "map_of (get_existing_laws docs) k = Some t \<Longrightarrow> t \<noteq> []"
  unfolding get_existing_laws_def by (rule fold_existing_nonempty[of "[]"]) auto

lemma get_similarity_nonempty:
  "old \<noteq> [] \<Longrightarrow> get_similarity old new = Inr (spec_similarity old new)"
  by (simp add: get_similarity_def spec_similarity_def Let_def max.commute)

lemma compare_laws_run:
  assumes "good_existing ex" "nonblank new"
  shows "compare_laws ex new w =
     (None, w\<lparr>low_similarity_laws := low_similarity_laws w @ map fst (updated ex new),
              documents := documents w @ map as_document (inserted ex new),
              calls := calls w @ map as_append (inserted ex new)\<rparr>)"
  using assms
proof (induction new arbitrary: w)
  case Nil
  then show ?case by (simp add: inserted_def updated_def)
next
  case (Cons p new)
  obtain k c where p: "p = (k, c)" by (cases p)
  have nb: "nonblank new" and c: "py_strip c \<noteq> []"
    using Cons.prems(2) by (auto simp: nonblank_def p)
  note IH = Cons.IH[OF Cons.prems(1) nb]
  show ?case
  proof (cases "map_of ex k")
    case None
    then show ?thesis
      by (simp add: p IH embed_and_save_def c inserted_def updated_def spec_decision_def
            as_append_def as_document_def)
  next
    case (Some old)
    then have "old \<noteq> []" using Cons.prems(1) by (auto simp: good_existing_def)
    then show ?thesis using Some
      by (simp add: p IH get_similarity_nonempty inserted_def updated_def spec_decision_def)
  qed
qed

lemma discard_keys_Cons:
  "discard_keys ks (filter (\<lambda>d. doc_law_number d \<noteq> Some k) ds) = discard_keys (k # ks) ds"
  by (simp add: discard_keys_def conj_commute)

lemma filter_discard_keys:
  "filter (\<lambda>d. doc_law_number d = Some k) (discard_keys ks ds) =
     (if k \<in> set ks then [] else filter (\<lambda>d. doc_law_number d = Some k) ds)"
proof (cases "k \<in> set ks")
  case True
  then show ?thesis by (auto simp: discard_keys_def filter_empty_conv)
next
  case False
  have "filter (\<lambda>d. doc_law_number d = Some k) (discard_keys ks ds) =
     filter (\<lambda>d. (\<forall>j \<in> set ks. doc_law_number d \<noteq> Some j) \<and> doc_law_number d = Some k) ds"
    by (simp only: discard_keys_def filter_filter)
  also have "\<dots> = filter (\<lambda>d. doc_law_number d = Some k) ds"
    using False by (intro filter_cong refl) auto
  finally show ?thesis using False by simp
qed

lemma fold_delete:
  "fold delete_law_number ks w =
     w\<lparr>documents := discard_keys ks (documents w),
       calls := calls w @ map Delete ks\<rparr>"
proof (induction ks arbitrary: w)
  case Nil
  then show ?case by (simp add: discard_keys_def)
next
  case (Cons k ks)
  have "fold delete_law_number (k # ks) w = fold delete_law_number ks (delete_law_number k w)"
    by simp
  also have "\<dots> = (delete_law_number k w)\<lparr>documents := discard_keys ks (documents (delete_law_number k w)),
       calls := calls (delete_law_number k w) @ map Delete ks\<rparr>"
    by (rule Cons.IH)
  also have "\<dots> = w\<lparr>documents := discard_keys (k # ks) (documents w),
       calls := calls w @ map Delete (k # ks)\<rparr>"
    by (simp add: delete_law_number_def discard_keys_Cons)
  finally show ?case .
qed

lemma delete_low_similarity_laws_run:
  "delete_low_similarity_laws w =
     w\<lparr>documents := discard_keys (low_similarity_laws w) (documents w),
       calls := calls w @ map Delete (low_similarity_laws w)\<rparr>"
  by (simp add: delete_low_similarity_laws_def fold_delete)

lemma reembed_laws_run:
  assumes "nonblank new" "set ks \<subseteq> fst ` set new"
  shows "reembed_laws ks new w =
     (None, w\<lparr>documents := documents w @ map (\<lambda>k. as_document (k, the (map_of new k))) ks,
              calls := calls w @ map (\<lambda>k. as_append (k, the (map_of new k))) ks\<rparr>)"
  using assms(2)
proof (induction ks arbitrary: w)
  case Nil
  then show ?case by simp
next
  case (Cons k ks)
  then obtain c where c: "map_of new k = Some c"
    by (metis list.set_intros(1) map_of_eq_None_iff not_Some_eq subsetD)
  then have "(k, c) \<in> set new" by (rule map_of_SomeD)
  then have "py_strip c \<noteq> []" using assms(1) by (auto simp: nonblank_def list_all_iff)
  then show ?case using Cons c
    by (simp add: embed_and_save_def as_document_def as_append_def)
qed

lemma good_existing_get: "good_existing (get_existing_laws docs)"
  by (auto simp: good_existing_def dest: existing_text_nonempty)

lemma reembed_laws_missing:
  assumes "nonblank new" "\<not> set ks \<subseteq> fst ` set new"
  shows "\<exists>pre. set pre \<subseteq> set ks \<and> reembed_laws ks new w =
     (Some KeyError, w\<lparr>documents := documents w @ map (\<lambda>k. as_document (k, the (map_of new k))) pre,
              calls := calls w @ map (\<lambda>k. as_append (k, the (map_of new k))) pre\<rparr>)"
  using assms(2)
proof (induction ks arbitrary: w)
  case Nil
  then show ?case by simp
next
  case (Cons k ks)
  show ?case
  proof (cases "map_of new k")
    case None
    then have "reembed_laws (k # ks) new w = (Some KeyError, w)" by simp
    then show ?thesis by (intro exI[of _ "[]"]) simp
  next
    case (Some c)
    then have in_new: "(k, c) \<in> set new" by (rule map_of_SomeD)
    then have c: "py_strip c \<noteq> []" using assms(1) by (auto simp: nonblank_def list_all_iff)
    from in_new have "k \<in> fst ` set new" by force
    with Cons.prems have "\<not> set ks \<subseteq> fst ` set new" by auto
    from Cons.IH[OF this] obtain pre where pre: "set pre \<subseteq> set ks"
      and run: "reembed_laws ks new
         (w\<lparr>documents := documents w @ [as_document (k, c)], calls := calls w @ [as_append (k, c)]\<rparr>) =
        (Some KeyError,
         (w\<lparr>documents := documents w @ [as_document (k, c)], calls := calls w @ [as_append (k, c)]\<rparr>)
           \<lparr>documents := documents (w\<lparr>documents := documents w @ [as_document (k, c)], calls := calls w @ [as_append (k, c)]\<rparr>)
               @ map (\<lambda>k. as_document (k, the (map_of new k))) pre,
            calls := calls (w\<lparr>documents := documents w @ [as_document (k, c)], calls := calls w @ [as_append (k, c)]\<rparr>)
               @ map (\<lambda>k. as_append (k, the (map_of new k))) pre\<rparr>)"
      by blast
    show ?thesis
      using pre run Some c
      by (intro exI[of _ "k # pre"]) (auto simp: embed_and_save_def as_document_def as_append_def)
  qed
qed

lemma map_of_distinct_key:
  "distinct (map fst xs) \<Longrightarrow> (k, c) \<in> set xs \<Longrightarrow> map_of xs k = Some c"
  by simp

lemma updated_subset: "set (updated ex new) \<subseteq> set new"
  by (auto simp: updated_def)

lemma reappend_updated:
  assumes "distinct (map fst new)"
  shows "map ((\<lambda>k. f (k, the (map_of new k))) \<circ> fst) (updated ex new) = map f (updated ex new)"
proof -
  have "\<And>p. p \<in> set (updated ex new) \<Longrightarrow> (fst p, the (map_of new (fst p))) = p"
  proof -
    fix p assume "p \<in> set (updated ex new)"
    then have "(fst p, snd p) \<in> set new" using updated_subset by auto
    then have "map_of new (fst p) = Some (snd p)" using assms by simp
    then show "(fst p, the (map_of new (fst p))) = p" by simp
  qed
  then show ?thesis by (simp cong: map_cong)
qed

lemma update_laws_run:
  assumes fresh: "low_similarity_laws w = []" and nb: "nonblank new" and dist: "distinct (map fst new)"
  shows "update_laws new w =
     (None, w\<lparr>low_similarity_laws := map fst (updated (get_existing_laws (documents w)) new),
              documents :=
                discard_keys (map fst (updated (get_existing_laws (documents w)) new))
                  (documents w @ map as_document (inserted (get_existing_laws (documents w)) new))
                @ map as_document (updated (get_existing_laws (documents w)) new),
              calls := calls w @ map as_append (inserted (get_existing_laws (documents w)) new)
                @ map Delete (map fst (updated (get_existing_laws (documents w)) new))
                @ map as_append (updated (get_existing_laws (documents w)) new)\<rparr>)"
proof -
  let ?ex = "get_existing_laws (documents w)"
  have sub: "set (map fst (updated ?ex new)) \<subseteq> fst ` set new"
    using updated_subset[of ?ex new] by auto
  show ?thesis
    unfolding update_laws_def Let_def
    by (simp add: compare_laws_run[OF good_existing_get nb] fresh delete_low_similarity_laws_run
          reembed_laws_run[OF nb sub] reappend_updated[OF dist])
qed

lemma filter_key_distinct:
  "distinct (map fst xs) \<Longrightarrow> (k, c) \<in> set xs \<Longrightarrow> filter (\<lambda>p. fst p = k) xs = [(k, c)]"
proof (induction xs)
  case Nil
  then show ?case by simp
next
  case (Cons x xs)
  show ?case
  proof (cases "x = (k, c)")
    case True
    with Cons.prems(1) have "\<forall>p \<in> set xs. fst p \<noteq> k" by force
    then have "filter (\<lambda>p. fst p = k) xs = []" by (simp add: filter_empty_conv)
    with True show ?thesis by simp
  next
    case False
    with Cons.prems have in_xs: "(k, c) \<in> set xs" by simp
    then have "k \<in> fst ` set xs" by force
    with Cons.prems(1) have "fst x \<noteq> k" by auto
    with Cons.IH in_xs Cons.prems(1) show ?thesis by simp
  qed
qed

lemma filter_key_filter:
  assumes "distinct (map fst xs)" "(k, c) \<in> set xs"
  shows "filter (\<lambda>p. fst p = k) (filter P xs) = (if P (k, c) then [(k, c)] else [])"
proof -
  have "filter (\<lambda>p. fst p = k) (filter P xs) = filter P (filter (\<lambda>p. fst p = k) xs)"
    by (simp add: conj_commute)
  then show ?thesis by (simp add: filter_key_distinct[OF assms])
qed

lemma calls_on_append: "calls_on k (map as_append ys) = map as_append (filter (\<lambda>p. fst p = k) ys)"
  by (induction ys) (auto simp: calls_on_def as_append_def)

lemma calls_on_delete: "calls_on k (map (Delete \<circ> fst) ys) = map (Delete \<circ> fst) (filter (\<lambda>p. fst p = k) ys)"
  by (induction ys) (auto simp: calls_on_def)

lemma calls_on_app: "calls_on k (xs @ ys) = calls_on k xs @ calls_on k ys"
  by (simp add: calls_on_def)

lemma stored_document: "filter (\<lambda>d. doc_law_number d = Some k) (map as_document ys)
   = map as_document (filter (\<lambda>p. fst p = k) ys)"
  by (induction ys) (auto simp: as_document_def)

lemmas eval_defs = update_laws_def init_worker_def get_existing_laws_def existing_step_def
      embed_and_save_def py_strip_def py_isspace_def get_similarity_def
      delete_low_similarity_laws_def delete_law_number_def

lemma update_laws_general:
  assumes nb: "nonblank new"
  shows "\<exists>r pre. update_laws new w =
     (r, w\<lparr>low_similarity_laws := low_similarity_laws w @ map fst (updated (get_existing_laws (documents w)) new),
           documents :=
             discard_keys (low_similarity_laws w @ map fst (updated (get_existing_laws (documents w)) new))
               (documents w @ map as_document (inserted (get_existing_laws (documents w)) new))
             @ map (\<lambda>k. as_document (k, the (map_of new k))) pre,
           calls := calls w @ map as_append (inserted (get_existing_laws (documents w)) new)
             @ map Delete (low_similarity_laws w @ map fst (updated (get_existing_laws (documents w)) new))
             @ map (\<lambda>k. as_append (k, the (map_of new k))) pre\<rparr>)
     \<and> (if set (low_similarity_laws w) \<subseteq> fst ` set new
        then r = None \<and> pre = low_similarity_laws w @ map fst (updated (get_existing_laws (documents w)) new)
        else r = Some (RuntimeError KeyError))"
proof -
  let ?ex = "get_existing_laws (documents w)"
  let ?L = "low_similarity_laws w @ map fst (updated ?ex new)"
  let ?w2 = "w\<lparr>low_similarity_laws := ?L,
              documents := discard_keys ?L (documents w @ map as_document (inserted ?ex new)),
              calls := calls w @ map as_append (inserted ?ex new) @ map Delete ?L\<rparr>"
  have upd_sub: "set (map fst (updated ?ex new)) \<subseteq> fst ` set new"
    using updated_subset[of ?ex new] by auto
  have step: "update_laws new w =
      (case reembed_laws ?L new ?w2 of
         (Some e, w3) \<Rightarrow> (Some (RuntimeError e), w3)
       | (None, w3) \<Rightarrow> (None, w3))"
    unfolding update_laws_def Let_def
    by (simp add: compare_laws_run[OF good_existing_get nb] delete_low_similarity_laws_run)
  show ?thesis
  proof (cases "set (low_similarity_laws w) \<subseteq> fst ` set new")
    case True
    with upd_sub have sub: "set ?L \<subseteq> fst ` set new" by simp
    show ?thesis
      unfolding step
      by (rule exI[of _ None], rule exI[of _ ?L])
         (simp add: reembed_laws_run[OF nb sub] True del: map_append set_append)
  next
    case False
    then have nsub: "\<not> set ?L \<subseteq> fst ` set new" by simp
    from reembed_laws_missing[OF nb nsub, of ?w2] obtain pre where
      run: "reembed_laws ?L new ?w2 =
         (Some KeyError, ?w2\<lparr>documents := documents ?w2 @ map (\<lambda>k. as_document (k, the (map_of new k))) pre,
              calls := calls ?w2 @ map (\<lambda>k. as_append (k, the (map_of new k))) pre\<rparr>)"
      by blast
    show ?thesis
      unfolding step
      by (rule exI[of _ "Some (RuntimeError KeyError)"], rule exI[of _ pre])
         (simp add: run False del: map_append set_append)
  qed
qed

lemma compare_laws_no_zero_division:
  "good_existing ex \<Longrightarrow> fst (compare_laws ex new w) \<noteq> Some ZeroDivisionError"
proof (induction new arbitrary: w)
  case Nil
  then show ?case by simp
next
  case (Cons p new)
  obtain k c where p: "p = (k, c)" by (cases p)
  show ?case
  proof (cases "map_of ex k")
    case None
    then show ?thesis using Cons
      by (simp add: p embed_and_save_def)
  next
    case (Some old)
    then have "old \<noteq> []" using Cons.prems by (auto simp: good_existing_def)
    then show ?thesis using Some Cons
      by (simp add: p get_similarity_nonempty)
  qed
qed

lemma reembed_laws_no_zero_division:
  "fst (reembed_laws ks new w) \<noteq> Some ZeroDivisionError"
  by (induction ks arbitrary: w) (auto simp: embed_and_save_def split: option.splits)

lemma comprehension_filter:
  "[f k c. (k, c) \<leftarrow> xs, P k c] = map (\<lambda>(k, c). f k c) (filter (\<lambda>(k, c). P k c) xs)"
  by (induction xs) auto

lemma update_laws_frame_fresh:
  assumes fresh: "low_similarity_laws w = []" and nb: "nonblank new_laws"
    and dist: "distinct (map fst new_laws)" and absent: "k \<notin> fst ` set new_laws"
  shows "\<exists>w'. update_laws new_laws w = (None, w') \<and>
     calls_on k (issued w w') = [] \<and> stored k w' = stored k w"
proof -
  let ?ex = "get_existing_laws (documents w)"
  note run = update_laws_run[OF fresh nb dist]
  let ?w' = "snd (update_laws new_laws w)"
  have none: "filter (\<lambda>p. fst p = k) xs = []" if "set xs \<subseteq> set new_laws" for xs :: "ustring pydict"
    using that absent by (auto simp: filter_empty_conv)
  have ins: "filter (\<lambda>p. fst p = k) (inserted ?ex new_laws) = []"
    by (rule none) (auto simp: inserted_def)
  have upd: "filter (\<lambda>p. fst p = k) (updated ?ex new_laws) = []"
    by (rule none) (rule updated_subset)
  have calls: "issued w ?w' = map as_append (inserted ?ex new_laws)
                @ map (Delete \<circ> fst) (updated ?ex new_laws)
                @ map as_append (updated ?ex new_laws)"
    by (simp add: run issued_def)
  have c1: "calls_on k (issued w ?w') = []"
    by (simp add: calls calls_on_app calls_on_append calls_on_delete ins upd)
  have mem: "k \<notin> set (map fst (updated ?ex new_laws))"
    using updated_subset[of ?ex new_laws] absent by auto
  have docs: "documents ?w' = discard_keys (map fst (updated ?ex new_laws))
                  (documents w @ map as_document (inserted ?ex new_laws))
                @ map as_document (updated ?ex new_laws)"
    by (simp add: run)
  have "stored k ?w' =
      (stored k w @ map as_document (filter (\<lambda>p. fst p = k) (inserted ?ex new_laws)))
      @ map as_document (filter (\<lambda>p. fst p = k) (updated ?ex new_laws))"
    unfolding stored_def docs filter_append filter_discard_keys stored_document using mem by simp
  then have c2: "stored k ?w' = stored k w" by (simp add: ins upd)
  have "update_laws new_laws w = (None, ?w')" by (simp add: run)
  with c1 c2 show ?thesis by blast
qed

section \<open>Reconciliation: the claims\<close>

text \<open>
  C1, as amended. On a \<open>WorkerUpdate\<close> whose \<open>low_similarity_laws\<close> is empty when
  \<open>update_laws\<close> is called, and for a batch with distinct keys and no blank content,
  the call returns normally and treats every \<open>(k, c)\<close> of the batch by the
  specification's decision against the snapshot read at the start of the call:
  Insert issues exactly one call for \<open>k\<close>, the append of the stripped content, and
  leaves it stored after what was stored for \<open>k\<close>; Update issues exactly the deletion of
  \<open>k\<close> followed by the append, and leaves the new object as the only one for \<open>k\<close>;
  Skip issues no call for \<open>k\<close> and leaves what was stored for it. Where \<open>k\<close> is in the
  snapshot, \<open>get_similarity\<close> returns 1 minus the edit distance over the longer length.
  Python's floating-point quotient is computed exactly in the model.
\<close>

theorem update_laws_decision:
  assumes fresh: "low_similarity_laws w = []" and nb: "nonblank new_laws"
    and dist: "distinct (map fst new_laws)" and kc: "(k, c) \<in> set new_laws"
  shows "\<exists>w'. update_laws new_laws w = (None, w') \<and>
     calls_on k (issued w w') =
       (case spec_decision (get_existing_laws (documents w)) k c of
          Insert \<Rightarrow> [Append k (py_strip c)]
        | Update \<Rightarrow> [Delete k, Append k (py_strip c)]
        | Skip \<Rightarrow> []) \<and>
     stored k w' =
       (case spec_decision (get_existing_laws (documents w)) k c of
          Insert \<Rightarrow> stored k w @ [\<lparr>doc_law_number = Some k, doc_text = Some (py_strip c)\<rparr>]
        | Update \<Rightarrow> [\<lparr>doc_law_number = Some k, doc_text = Some (py_strip c)\<rparr>]
        | Skip \<Rightarrow> stored k w) \<and>
     (\<forall>old. map_of (get_existing_laws (documents w)) k = Some old \<longrightarrow>
        get_similarity old c = Inr (1 - of_nat (levenshtein old c) / of_nat (max (length old) (length c))))"
proof -
  let ?ex = "get_existing_laws (documents w)"
  note run = update_laws_run[OF fresh nb dist]
  let ?w' = "snd (update_laws new_laws w)"
  have calls: "issued w ?w' = map as_append (inserted ?ex new_laws)
                @ map (Delete \<circ> fst) (updated ?ex new_laws)
                @ map as_append (updated ?ex new_laws)"
    by (simp add: run issued_def)
  have ins: "filter (\<lambda>p. fst p = k) (inserted ?ex new_laws) = (if spec_decision ?ex k c = Insert then [(k, c)] else [])"
    unfolding inserted_def using filter_key_filter[OF dist kc, of "\<lambda>(k, c). spec_decision ?ex k c = Insert"] by simp
  have upd: "filter (\<lambda>p. fst p = k) (updated ?ex new_laws) = (if spec_decision ?ex k c = Update then [(k, c)] else [])"
    unfolding updated_def using filter_key_filter[OF dist kc, of "\<lambda>(k, c). spec_decision ?ex k c = Update"] by simp
  have c1: "calls_on k (issued w ?w') =
       (case spec_decision ?ex k c of
          Insert \<Rightarrow> [Append k (py_strip c)]
        | Update \<Rightarrow> [Delete k, Append k (py_strip c)]
        | Skip \<Rightarrow> [])"
    by (simp add: calls calls_on_app calls_on_append calls_on_delete ins upd as_append_def
          split: action.splits)
  have mem: "k \<in> set (map fst (updated ?ex new_laws)) \<longleftrightarrow> spec_decision ?ex k c = Update"
  proof
    assume "k \<in> set (map fst (updated ?ex new_laws))"
    then have "filter (\<lambda>p. fst p = k) (updated ?ex new_laws) \<noteq> []"
      by (auto simp: filter_empty_conv)
    with upd show "spec_decision ?ex k c = Update" by (simp split: if_splits)
  next
    assume "spec_decision ?ex k c = Update"
    with kc have "(k, c) \<in> set (updated ?ex new_laws)" by (simp add: updated_def)
    then show "k \<in> set (map fst (updated ?ex new_laws))" by force
  qed
  have docs: "documents ?w' = discard_keys (map fst (updated ?ex new_laws))
                  (documents w @ map as_document (inserted ?ex new_laws))
                @ map as_document (updated ?ex new_laws)"
    by (simp add: run)
  have "stored k ?w' =
      (if spec_decision ?ex k c = Update then []
       else stored k w @ map as_document (filter (\<lambda>p. fst p = k) (inserted ?ex new_laws)))
      @ map as_document (filter (\<lambda>p. fst p = k) (updated ?ex new_laws))"
    unfolding stored_def docs filter_append filter_discard_keys mem stored_document ..
  then have c2: "stored k ?w' =
       (case spec_decision ?ex k c of
          Insert \<Rightarrow> stored k w @ [\<lparr>doc_law_number = Some k, doc_text = Some (py_strip c)\<rparr>]
        | Update \<Rightarrow> [\<lparr>doc_law_number = Some k, doc_text = Some (py_strip c)\<rparr>]
        | Skip \<Rightarrow> stored k w)"
    by (simp add: ins upd as_document_def split: action.splits)
  have c3: "\<forall>old. map_of ?ex k = Some old \<longrightarrow>
        get_similarity old c = Inr (1 - of_nat (levenshtein old c) / of_nat (max (length old) (length c)))"
    using get_similarity_nonempty existing_text_nonempty by (auto simp: spec_similarity_def)
  have "update_laws new_laws w = (None, ?w')" by (simp add: run)
  with c1 c2 c3 show ?thesis by blast
qed

text \<open>Witness for C1: a batch that skips key 5, updates key 6 and inserts key 7.\<close>

theorem update_laws_decision_witness:
  "\<exists>w'. update_laws [(5, [97, 98, 99]), (6, [120, 121, 122, 119]), (7, [113])]
        (init_worker [\<lparr>doc_law_number = Some 5, doc_text = Some [97, 98, 99]\<rparr>,
                      \<lparr>doc_law_number = Some 6, doc_text = Some [97, 98, 99, 100]\<rparr>]) = (None, w') \<and>
     calls_on 6 (issued (init_worker [\<lparr>doc_law_number = Some 5, doc_text = Some [97, 98, 99]\<rparr>,
                      \<lparr>doc_law_number = Some 6, doc_text = Some [97, 98, 99, 100]\<rparr>]) w')
       = [Delete 6, Append 6 [120, 121, 122, 119]] \<and>
     stored 6 w' = [\<lparr>doc_law_number = Some 6, doc_text = Some [120, 121, 122, 119]\<rparr>]"
proof -
  let ?w = "init_worker [\<lparr>doc_law_number = Some 5, doc_text = Some [97, 98, 99]\<rparr>,
                        \<lparr>doc_law_number = Some 6, doc_text = Some [97, 98, 99, 100]\<rparr>]"
  let ?new = "[(5, [97, 98, 99]), (6, [120, 121, 122, 119]), (7, [113::nat])] :: ustring pydict"
  have h1: "low_similarity_laws ?w = []" by (simp add: init_worker_def)
  have h2: "nonblank ?new" by (simp add: nonblank_def py_strip_def py_isspace_def)
  have h3: "distinct (map fst ?new)" by simp
  have h4: "(6, [120, 121, 122, 119]) \<in> set ?new" by simp
  have ex: "get_existing_laws (documents ?w) = [(5, [97, 98, 99]), (6, [97, 98, 99, 100])]"
    by (simp add: init_worker_def get_existing_laws_def existing_step_def)
  have dec: "spec_decision (get_existing_laws (documents ?w)) 6 [120, 121, 122, 119] = Update"
    unfolding ex by (simp add: spec_decision_def spec_similarity_def)
  have strip: "py_strip [120, 121, 122, 119] = [120, 121, 122, 119]"
    by (simp add: py_strip_def py_isspace_def)
  from update_laws_decision[OF h1 h2 h3 h4] show ?thesis
    unfolding dec strip by auto
qed

text \<open>
  Counterexample to C1 as stated: key 5 is absent from the empty snapshot, its content
  is blank, and the guard of \<open>embed_and_save\<close> raises: nothing is inserted.
\<close>

theorem update_laws_blank_content_counterexample:
  "update_laws [(5, [])] (init_worker []) =
     (Some (RuntimeError (RuntimeError ValueError)), init_worker [])"
  by (simp add: eval_defs)

text \<open>
  C2, as amended. Under the same conditions one batch issues its calls in three runs:
  during the comparison pass the append of every key decided Insert, in batch order;
  then the deletion of every key decided Update; then the append of every key decided
  Update. So every deletion comes before every append of an updated key, and after
  every append of a new key.
\<close>

theorem update_laws_call_order:
  assumes "low_similarity_laws w = []" and "nonblank new_laws" and "distinct (map fst new_laws)"
  shows "\<exists>w'. update_laws new_laws w = (None, w') \<and>
     issued w w' =
       [Append k (py_strip c). (k, c) \<leftarrow> new_laws,
          spec_decision (get_existing_laws (documents w)) k c = Insert]
       @ [Delete k. (k, c) \<leftarrow> new_laws,
          spec_decision (get_existing_laws (documents w)) k c = Update]
       @ [Append k (py_strip c). (k, c) \<leftarrow> new_laws,
          spec_decision (get_existing_laws (documents w)) k c = Update]"
proof -
  let ?ex = "get_existing_laws (documents w)"
  have a: "[Append k (py_strip c). (k, c) \<leftarrow> new_laws, spec_decision ?ex k c = d]
      = map as_append (filter (\<lambda>(k, c). spec_decision ?ex k c = d) new_laws)" for d
    unfolding comprehension_filter by (simp add: as_append_def case_prod_beta)
  have b: "[Delete k. (k, c) \<leftarrow> new_laws, spec_decision ?ex k c = Update]
      = map Delete (map fst (updated ?ex new_laws))"
    unfolding comprehension_filter by (simp add: updated_def case_prod_beta comp_def)
  show ?thesis
    unfolding a b
    by (simp add: update_laws_run[OF assms] issued_def inserted_def updated_def)
qed

text \<open>Witness for C2.\<close>

theorem update_laws_call_order_witness:
  "issued (init_worker [\<lparr>doc_law_number = Some 5, doc_text = Some [97, 98, 99]\<rparr>,
                        \<lparr>doc_law_number = Some 6, doc_text = Some [97, 98, 99, 100]\<rparr>])
     (snd (update_laws [(5, [97, 98, 99]), (6, [120, 121, 122, 119]), (7, [113])]
        (init_worker [\<lparr>doc_law_number = Some 5, doc_text = Some [97, 98, 99]\<rparr>,
                      \<lparr>doc_law_number = Some 6, doc_text = Some [97, 98, 99, 100]\<rparr>])))
   = [Append 7 [113], Delete 6, Append 6 [120, 121, 122, 119]]"
proof -
  let ?w = "init_worker [\<lparr>doc_law_number = Some 5, doc_text = Some [97, 98, 99]\<rparr>,
                        \<lparr>doc_law_number = Some 6, doc_text = Some [97, 98, 99, 100]\<rparr>]"
  let ?new = "[(5, [97, 98, 99]), (6, [120, 121, 122, 119]), (7, [113::nat])] :: ustring pydict"
  have h1: "low_similarity_laws ?w = []" by (simp add: init_worker_def)
  have h2: "nonblank ?new" by (simp add: nonblank_def py_strip_def py_isspace_def)
  have h3: "distinct (map fst ?new)" by simp
  have ex: "get_existing_laws (documents ?w) = [(5, [97, 98, 99]), (6, [97, 98, 99, 100])]"
    by (simp add: init_worker_def get_existing_laws_def existing_step_def)
  from update_laws_call_order[OF h1 h2 h3] show ?thesis
    unfolding ex
    by (auto simp: spec_decision_def spec_similarity_def py_strip_def py_isspace_def)
qed

text \<open>
  Counterexample to C2 as stated: the append for the new key 7 is issued before the
  deletion of key 6.
\<close>

theorem inserts_precede_deletions_counterexample:
  "calls (snd (update_laws [(7, [113]), (6, [120, 121, 122, 119])]
        (init_worker [\<lparr>doc_law_number = Some 6, doc_text = Some [97, 98, 99, 100]\<rparr>])))
   = [Append 7 [113], Delete 6, Append 6 [120, 121, 122, 119]]"
  by (simp add: eval_defs)

text \<open>
  C7. The claim fails on an instance that has served an earlier batch: the first batch
  marks key 6, the list is not emptied, and the second batch, which has key 5 only,
  deletes key 6 from the store and then raises \<open>KeyError\<close> at \<open>new_laws[6]\<close>. Key 6 was
  in the snapshot and absent from the second batch, and nothing is stored for it
  afterwards. On an instance whose list is empty the claim holds
  (\<open>update_laws_frame_fresh\<close>); the list carried over from the earlier batch breaks it.
\<close>

theorem absent_key_deleted_by_next_batch:
  "update_laws [(5, [97, 98, 99])]
     (snd (update_laws [(6, [120, 121])]
        (init_worker [\<lparr>doc_law_number = Some 5, doc_text = Some [97, 98, 99]\<rparr>,
                      \<lparr>doc_law_number = Some 6, doc_text = Some [97, 98, 99, 100]\<rparr>])))
   = (Some (RuntimeError KeyError),
      \<lparr>low_similarity_laws = [6],
       documents = [\<lparr>doc_law_number = Some 5, doc_text = Some [97, 98, 99]\<rparr>],
       calls = [Delete 6, Append 6 [120, 121], Delete 6]\<rparr>)"
  by (simp add: eval_defs)

text \<open>
  C9, as amended. \<open>low_similarity_laws\<close> is not reset between calls. For batches
  without blank content: a key \<open>k\<close> that a call decides to Update is in the list after that call,
  whatever the list held before; the next call on the same instance issues the deletion
  of \<open>k\<close>; if \<open>k\<close> is absent from the next batch that call raises \<open>KeyError\<close>,
  re-raised as \<open>RuntimeError\<close>, with the deletion already issued; and if \<open>k\<close> is in the
  next batch and the call returns normally, \<open>k\<close> is appended again from that batch.
\<close>

theorem low_similarity_laws_carry_over:
  assumes nb1: "nonblank new1" and nb2: "nonblank new2"
    and kc: "(k, c1) \<in> set new1"
    and dec: "spec_decision (get_existing_laws (documents w0)) k c1 = Update"
    and call1: "update_laws new1 w0 = (r1, w1)"
    and call2: "update_laws new2 w1 = (r2, w2)"
  shows "k \<in> set (low_similarity_laws w1) \<and>
         Delete k \<in> set (issued w1 w2) \<and>
         (map_of new2 k = None \<longrightarrow> r2 = Some (RuntimeError KeyError)) \<and>
         (\<forall>c2. map_of new2 k = Some c2 \<and> r2 = None \<longrightarrow> Append k (py_strip c2) \<in> set (issued w1 w2))"
proof -
  from kc dec have "(k, c1) \<in> set (updated (get_existing_laws (documents w0)) new1)"
    by (simp add: updated_def)
  then have k_upd: "k \<in> set (map fst (updated (get_existing_laws (documents w0)) new1))"
    by force
  from update_laws_general[OF nb1, of w0] call1
  have low1: "low_similarity_laws w1 =
      low_similarity_laws w0 @ map fst (updated (get_existing_laws (documents w0)) new1)"
    by auto
  with k_upd have k1: "k \<in> set (low_similarity_laws w1)" by simp
  let ?L = "low_similarity_laws w1 @ map fst (updated (get_existing_laws (documents w1)) new2)"
  from update_laws_general[OF nb2, of w1] call2 obtain pre where
    calls2: "calls w2 = calls w1 @ map as_append (inserted (get_existing_laws (documents w1)) new2)
             @ map Delete ?L @ map (\<lambda>k. as_append (k, the (map_of new2 k))) pre"
    and res: "if set (low_similarity_laws w1) \<subseteq> fst ` set new2
        then r2 = None \<and> pre = ?L else r2 = Some (RuntimeError KeyError)"
    by auto
  have iss: "issued w1 w2 = map as_append (inserted (get_existing_laws (documents w1)) new2)
             @ map Delete ?L @ map (\<lambda>k. as_append (k, the (map_of new2 k))) pre"
    by (simp add: issued_def calls2)
  have del: "Delete k \<in> set (issued w1 w2)"
    unfolding iss using k1 by simp
  have missing: "map_of new2 k = None \<longrightarrow> r2 = Some (RuntimeError KeyError)"
  proof
    assume "map_of new2 k = None"
    then have "k \<notin> fst ` set new2" by (simp add: map_of_eq_None_iff)
    with k1 have "\<not> set (low_similarity_laws w1) \<subseteq> fst ` set new2" by auto
    with res show "r2 = Some (RuntimeError KeyError)" by simp
  qed
  have again: "\<forall>c2. map_of new2 k = Some c2 \<and> r2 = None \<longrightarrow> Append k (py_strip c2) \<in> set (issued w1 w2)"
  proof (intro allI impI)
    fix c2 assume a: "map_of new2 k = Some c2 \<and> r2 = None"
    with res have "pre = ?L" by (auto split: if_splits)
    with k1 have "k \<in> set pre" by simp
    then have "as_append (k, the (map_of new2 k)) \<in> set (map (\<lambda>k. as_append (k, the (map_of new2 k))) pre)"
      by auto
    then show "Append k (py_strip c2) \<in> set (issued w1 w2)"
      unfolding iss using a by (simp add: as_append_def)
  qed
  from k1 del missing again show ?thesis by blast
qed

text \<open>Witness for C9: key 6 is updated by the first batch and absent from the second.\<close>

theorem low_similarity_laws_carry_over_witness:
  "6 \<in> set (low_similarity_laws (snd (update_laws [(6, [120, 121])]
        (init_worker [\<lparr>doc_law_number = Some 6, doc_text = Some [97, 98, 99, 100]\<rparr>])))) \<and>
   Delete 6 \<in> set (issued
      (snd (update_laws [(6, [120, 121])]
        (init_worker [\<lparr>doc_law_number = Some 6, doc_text = Some [97, 98, 99, 100]\<rparr>])))
      (snd (update_laws [(5, [97, 98, 99])] (snd (update_laws [(6, [120, 121])]
        (init_worker [\<lparr>doc_law_number = Some 6, doc_text = Some [97, 98, 99, 100]\<rparr>])))))) \<and>
   fst (update_laws [(5, [97, 98, 99])] (snd (update_laws [(6, [120, 121])]
        (init_worker [\<lparr>doc_law_number = Some 6, doc_text = Some [97, 98, 99, 100]\<rparr>]))))
     = Some (RuntimeError KeyError)"
proof -
  let ?w0 = "init_worker [\<lparr>doc_law_number = Some 6, doc_text = Some [97, 98, 99, 100]\<rparr>]"
  let ?new1 = "[(6, [120, 121::nat])] :: ustring pydict"
  let ?new2 = "[(5, [97, 98, 99::nat])] :: ustring pydict"
  let ?w1 = "snd (update_laws ?new1 ?w0)"
  have h1: "nonblank ?new1" by (simp add: nonblank_def py_strip_def py_isspace_def)
  have h2: "nonblank ?new2" by (simp add: nonblank_def py_strip_def py_isspace_def)
  have h3: "(6, [120, 121]) \<in> set ?new1" by simp
  have h4: "spec_decision (get_existing_laws (documents ?w0)) 6 [120, 121] = Update"
    by (simp add: init_worker_def get_existing_laws_def existing_step_def
          spec_decision_def spec_similarity_def)
  have h5: "update_laws ?new1 ?w0 = (fst (update_laws ?new1 ?w0), ?w1)" by simp
  have h6: "update_laws ?new2 ?w1 = (fst (update_laws ?new2 ?w1), snd (update_laws ?new2 ?w1))"
    by simp
  have h7: "map_of ?new2 6 = None" by simp
  from low_similarity_laws_carry_over[OF h1 h2 h3 h4 h5 h6] h7 show ?thesis by simp
qed

text \<open>
  Counterexample to C9 as stated: the first batch updates key 6; the second batch has
  the new key 7 with blank content, so the guard of \<open>embed_and_save\<close> raises inside the
  comparison loop. The second call issues no call at all, key 6 is not deleted again,
  and the error is the re-raised \<open>ValueError\<close>.
\<close>

theorem carry_over_blank_content_counterexample:
  "snd (update_laws [(6, [120, 121])]
          (init_worker [\<lparr>doc_law_number = Some 6, doc_text = Some [97, 98, 99, 100]\<rparr>]))
     = \<lparr>low_similarity_laws = [6],
        documents = [\<lparr>doc_law_number = Some 6, doc_text = Some [120, 121]\<rparr>],
        calls = [Delete 6, Append 6 [120, 121]]\<rparr> \<and>
   update_laws [(7, [])]
     (snd (update_laws [(6, [120, 121])]
          (init_worker [\<lparr>doc_law_number = Some 6, doc_text = Some [97, 98, 99, 100]\<rparr>])))
     = (Some (RuntimeError (RuntimeError ValueError)),
        \<lparr>low_similarity_laws = [6],
         documents = [\<lparr>doc_law_number = Some 6, doc_text = Some [120, 121]\<rparr>],
         calls = [Delete 6, Append 6 [120, 121]]\<rparr>)"
  by (simp add: eval_defs)

text \<open>
  C10. \<open>get_similarity\<close> raises \<open>ZeroDivisionError\<close> on two empty strings. Every text
  in the snapshot of \<open>get_existing_laws\<close> is non-empty, so with such a text as the
  old content the longer length is at least 1 and \<open>get_similarity\<close> returns a score;
  and no call of \<open>update_laws\<close>, in any state and for any batch, ends with a
  \<open>ZeroDivisionError\<close>.
\<close>

theorem similarity_never_divides_by_zero:
  "get_similarity [] [] = Inl ZeroDivisionError \<and>
   (\<forall>k old. map_of (get_existing_laws docs) k = Some old \<longrightarrow>
      old \<noteq> [] \<and> 1 \<le> max (length new_content) (length old) \<and>
      get_similarity old new_content = Inr (spec_similarity old new_content)) \<and>
   fst (update_laws new_laws w) \<noteq> Some (RuntimeError ZeroDivisionError)"
proof -
  have a: "get_similarity [] [] = Inl ZeroDivisionError"
    by (simp add: get_similarity_def)
  have b: "\<forall>k old. map_of (get_existing_laws docs) k = Some old \<longrightarrow>
      old \<noteq> [] \<and> 1 \<le> max (length new_content) (length old) \<and>
      get_similarity old new_content = Inr (spec_similarity old new_content)"
  proof (intro allI impI)
    fix k old assume "map_of (get_existing_laws docs) k = Some old"
    then have ne: "old \<noteq> []" by (rule existing_text_nonempty)
    then have "1 \<le> length old" by (cases old) simp_all
    then have "1 \<le> max (length new_content) (length old)" by simp
    with ne show "old \<noteq> [] \<and> 1 \<le> max (length new_content) (length old) \<and>
      get_similarity old new_content = Inr (spec_similarity old new_content)"
      by (simp add: get_similarity_nonempty)
  qed
  have c: "fst (update_laws new_laws w) \<noteq> Some (RuntimeError ZeroDivisionError)"
  proof -
    have c1: "fst (compare_laws (get_existing_laws (documents w)) new_laws w) \<noteq> Some ZeroDivisionError"
      by (rule compare_laws_no_zero_division[OF good_existing_get])
    have c2: "fst (reembed_laws ks new_laws w') \<noteq> Some ZeroDivisionError" for ks w'
      by (rule reembed_laws_no_zero_division)
    show ?thesis
      unfolding update_laws_def Let_def
      using c1 c2 by (auto split: prod.splits option.splits) (metis fst_conv)+
  qed
  from a b c show ?thesis by blast
qed

text \<open>Witness for C10: the object with empty text is left out of the snapshot.\<close>

theorem similarity_never_divides_by_zero_witness:
  "map_of (get_existing_laws [\<lparr>doc_law_number = Some 5, doc_text = Some []\<rparr>,
                              \<lparr>doc_law_number = Some 6, doc_text = Some [97]\<rparr>]) 6 = Some [97] \<and>
   get_similarity [97] [] = Inr 0"
proof -
  let ?docs = "[\<lparr>doc_law_number = Some 5, doc_text = Some []\<rparr>,
               \<lparr>doc_law_number = Some 6, doc_text = Some [97]\<rparr>]"
  have h: "map_of (get_existing_laws ?docs) 6 = Some [97]"
    by (simp add: get_existing_laws_def existing_step_def)
  from similarity_never_divides_by_zero[of ?docs "[]" "[]" "init_worker []"] h
  have "get_similarity [97] [] = Inr (spec_similarity [97] [])" by blast
  with h show ?thesis by (simp add: spec_similarity_def)
qed

section \<open>Acquisition and segmentation: lemmas\<close>

lemma extract_text_from_pdf_whole:
  "start_page = None \<or> start_page = Some 0 \<or> end_page = None \<or> end_page = Some 0 \<Longrightarrow>
   extract_text_from_pdf pages start_page end_page = concat pages"
  by (auto simp: extract_text_from_pdf_def pdfminer_extract_text_def split: option.splits)

lemma no_marker_finditer: "\<not> has_marker D s \<Longrightarrow> finditer D s = []"
  by (induction s) auto

lemma marker_at_le:
  assumes "marker_at D s = Some n"
  shows "n \<le> length s \<and> 0 < n"
proof -
  from assms obtain ds where ds: "marker_digits D s = Some ds"
    by (auto simp: marker_at_def split: option.splits)
  with assms obtain c rest where d: "drop (5 + length ds) s = c # rest" and n: "n = 5 + length ds + 1"
    by (auto simp: marker_at_def split: list.splits if_splits)
  have "5 + length ds < length s"
  proof (rule ccontr)
    assume "\<not> 5 + length ds < length s"
    then have "drop (5 + length ds) s = []" by simp
    with d show False by simp
  qed
  with n show ?thesis by simp
qed

lemma takeWhile_take: "length (takeWhile P xs) \<le> k \<Longrightarrow> takeWhile P (take k xs) = takeWhile P xs"
proof (induction xs arbitrary: k)
  case Nil
  then show ?case by simp
next
  case (Cons x xs)
  then show ?case by (cases k) auto
qed

lemma marker_digits_take:
  assumes "marker_at D s = Some h" "h \<le> n"
  shows "marker_digits D (take n s) = marker_digits D s"
proof -
  from assms(1) obtain ds where ds: "marker_digits D s = Some ds"
    by (auto simp: marker_at_def split: option.splits)
  with assms(1) have h: "h = 5 + length ds + 1"
    by (auto simp: marker_at_def split: list.splits if_splits)
  from ds have tw: "takeWhile (is_digit D) (drop 5 s) = ds" and d: "take 5 s = dieu"
    by (auto simp: marker_digits_def split: if_splits)
  from h assms(2) have n: "5 \<le> n" "length ds \<le> n - 5" by auto
  have "take 5 (take n s) = take 5 s" using n by (simp add: min_def)
  moreover have "takeWhile (is_digit D) (drop 5 (take n s)) = takeWhile (is_digit D) (drop 5 s)"
    using n tw by (simp add: drop_take takeWhile_take)
  ultimately show ?thesis by (simp add: marker_digits_def)
qed

lemma finditer_matches:
  "m \<in> set (finditer D s) \<Longrightarrow>
   \<exists>i h. i < length s \<and> marker_at D (drop i s) = Some h \<and> h \<le> length m \<and>
         m = take (length m) (drop i s)"
proof (induction D s rule: finditer.induct)
  case (1 D)
  then show ?case by simp
next
  case (2 D c cs)
  show ?case
  proof (cases "marker_at D (c # cs)")
    case None
    with 2 obtain i h where "i < length cs" "marker_at D (drop i cs) = Some h" "h \<le> length m"
      "m = take (length m) (drop i cs)" by auto
    then show ?thesis by (intro exI[of _ "Suc i"] exI[of _ h]) simp
  next
    case (Some n)
    let ?k = "n + lazy_body D (drop n (c # cs))"
    from Some have n: "n \<le> length (c # cs)" "0 < n" using marker_at_le by blast+
    from 2(3) Some have "m = take ?k (c # cs) \<or> m \<in> set (finditer D (drop (?k - 1) cs))"
      by (simp add: Let_def)
    then show ?thesis
    proof
      assume m: "m = take ?k (c # cs)"
      then have "length m = min (length (c # cs)) ?k" by simp
      with n have "n \<le> length m" by simp
      moreover have "m = take (length m) (drop 0 (c # cs))"
        unfolding m by (cases "Suc (length cs) \<le> ?k") (simp_all add: min_def)
      ultimately show ?thesis using Some
        by (intro exI[of _ 0] exI[of _ n]) simp
    next
      assume "m \<in> set (finditer D (drop (?k - 1) cs))"
      from 2(2)[OF Some refl this] obtain i h where
        i: "i < length (drop (?k - 1) cs)" and h: "marker_at D (drop i (drop (?k - 1) cs)) = Some h"
          "h \<le> length m" "m = take (length m) (drop i (drop (?k - 1) cs))"
        by blast
      have eq: "drop i (drop (?k - 1) cs) = drop (i + ?k) (c # cs)"
        using n by (cases ?k) (simp_all add: add.commute)
      from i have "i + ?k < length (c # cs)" using n by (cases ?k) auto
      with h eq show ?thesis
        by (intro exI[of _ "i + ?k"] exI[of _ h]) simp
    qed
  qed
qed

lemma set_alist_update: "set (AList.update k v al) \<subseteq> insert (k, v) (set al)"
  by (induction al) auto

lemma laws_loop_entries:
  "laws_loop D ms d = Some d' \<Longrightarrow> (k, v) \<in> set d' \<Longrightarrow>
   (k, v) \<in> set d \<or> (\<exists>m \<in> set ms. \<exists>ds. marker_digits D m = Some ds \<and> k = int_of_digits D ds \<and> v = py_strip m)"
proof (induction ms arbitrary: d)
  case Nil
  then show ?case by simp
next
  case (Cons m ms)
  from Cons.prems(1) obtain ds where ds: "marker_digits D m = Some ds"
    and run: "laws_loop D ms (AList.update (int_of_digits D ds) (py_strip m) d) = Some d'"
    by (auto split: option.splits)
  from Cons.IH[OF run Cons.prems(2)] show ?case
  proof
    assume "(k, v) \<in> set (AList.update (int_of_digits D ds) (py_strip m) d)"
    with set_alist_update have "(k, v) = (int_of_digits D ds, py_strip m) \<or> (k, v) \<in> set d"
      by fastforce
    with ds show ?thesis by auto
  next
    assume "\<exists>m \<in> set ms. \<exists>ds. marker_digits D m = Some ds \<and> k = int_of_digits D ds \<and> v = py_strip m"
    then show ?thesis by auto
  qed
qed

lemma laws_loop_total:
  "(\<And>m. m \<in> set ms \<Longrightarrow> marker_digits D m \<noteq> None) \<Longrightarrow> \<exists>d'. laws_loop D ms d = Some d'"
  by (induction ms arbitrary: d) (auto split: option.splits)

lemma marker_at_digits: "marker_at D s = Some h \<Longrightarrow> marker_digits D s \<noteq> None"
  by (auto simp: marker_at_def split: option.splits)

lemma finditer_match_digits:
  assumes "m \<in> set (finditer D s)"
  shows "\<exists>i. i < length s \<and> marker_at D (drop i s) \<noteq> None \<and>
             marker_digits D m = marker_digits D (drop i s) \<and> marker_digits D m \<noteq> None"
proof -
  from finditer_matches[OF assms] obtain i h where i: "i < length s"
    and h: "marker_at D (drop i s) = Some h" "h \<le> length m" and m: "m = take (length m) (drop i s)"
    by blast
  from marker_digits_take[OF h] m have "marker_digits D m = marker_digits D (drop i s)" by simp
  with i h marker_at_digits[OF h(1)] show ?thesis by auto
qed

lemma extract_laws_total:
  "\<exists>d. laws_loop D (finditer D s) [] = Some d \<and> extract_laws_from_text D s = d"
proof -
  have "\<And>m. m \<in> set (finditer D s) \<Longrightarrow> marker_digits D m \<noteq> None"
    using finditer_match_digits by blast
  from laws_loop_total[OF this] obtain d where "laws_loop D (finditer D s) [] = Some d" by blast
  then show ?thesis by (simp add: extract_laws_from_text_def)
qed

lemma marker_at_take:
  assumes "marker_at D s = Some h" "h \<le> n"
  shows "marker_at D (take n s) = Some h"
proof -
  from assms(1) obtain ds where ds: "marker_digits D s = Some ds"
    by (auto simp: marker_at_def split: option.splits)
  with assms(1) obtain rest where d: "drop (5 + length ds) s = 46 # rest" and h: "h = 5 + length ds + 1"
    by (auto simp: marker_at_def split: list.splits if_splits)
  have md: "marker_digits D (take n s) = Some ds"
    using marker_digits_take[OF assms] ds by simp
  from h assms(2) obtain j where j: "n - (5 + length ds) = Suc j" by (cases "n - (5 + length ds)") auto
  have "drop (5 + length ds) (take n s) = take (n - (5 + length ds)) (drop (5 + length ds) s)"
    by (simp add: drop_take)
  also have "\<dots> = 46 # take j rest" by (simp add: d j)
  finally show ?thesis using md h by (simp add: marker_at_def)
qed

lemma marker_at_shape:
  assumes "marker_at D m = Some h"
  shows "0 < h \<and> h \<le> length m \<and> m ! (h - 1) = 46 \<and> hd m = 272 \<and> m \<noteq> []"
proof -
  from assms obtain ds where ds: "marker_digits D m = Some ds"
    by (auto simp: marker_at_def split: option.splits)
  with assms obtain rest where d: "drop (5 + length ds) m = 46 # rest" and h: "h = 5 + length ds + 1"
    by (auto simp: marker_at_def split: list.splits if_splits)
  from d have n: "m ! (5 + length ds) = 46" by (rule nth_via_drop)
  from ds have t: "take 5 m = dieu" by (auto simp: marker_digits_def split: if_splits)
  then have ne: "m \<noteq> []" by (auto simp: dieu_def)
  from t ne have "hd m = 272" by (cases m) (auto simp: dieu_def)
  with marker_at_le[OF assms] n h ne show ?thesis by simp
qed

lemma strip_keeps_prefix:
  assumes "p < length m" "\<not> py_isspace (m ! p)" "\<not> py_isspace (hd m)"
  shows "\<exists>j. p < j \<and> py_strip m = take j m"
proof -
  let ?n = "length (takeWhile py_isspace (rev m))"
  from assms(1) have ne: "m \<noteq> []" by auto
  with assms(3) have front: "dropWhile py_isspace m = m" by (cases m) auto
  have "dropWhile py_isspace (rev m) = drop ?n (rev m)" by (rule dropWhile_eq_drop)
  then have strip: "py_strip m = take (length m - ?n) m"
    by (simp add: py_strip_def front rev_drop)
  have "?n + p < length m"
  proof (rule ccontr)
    assume "\<not> ?n + p < length m"
    with assms(1) have q: "length m - Suc p < ?n" by arith
    then have "takeWhile py_isspace (rev m) ! (length m - Suc p) = rev m ! (length m - Suc p)"
      by (rule takeWhile_nth)
    moreover from q have "takeWhile py_isspace (rev m) ! (length m - Suc p) \<in> set (takeWhile py_isspace (rev m))"
      by (rule nth_mem)
    ultimately have "py_isspace (rev m ! (length m - Suc p))" by (auto dest: set_takeWhileD)
    moreover from assms(1) have "rev m ! (length m - Suc p) = m ! p" by (simp add: rev_nth)
    ultimately show False using assms(2) by simp
  qed
  then have "p < length m - ?n" by arith
  with strip show ?thesis by blast
qed

lemma not_space_46_272: "\<not> py_isspace 46 \<and> \<not> py_isspace 272"
  by (simp add: py_isspace_def)

lemma marker_digits_strip:
  assumes "marker_at D m = Some h"
  shows "marker_digits D (py_strip m) = marker_digits D m"
proof -
  from marker_at_shape[OF assms] have s: "0 < h" "h \<le> length m" "m ! (h - 1) = 46" "hd m = 272"
    by auto
  then have "h - 1 < length m" "\<not> py_isspace (m ! (h - 1))" "\<not> py_isspace (hd m)"
    using not_space_46_272 by auto
  from strip_keeps_prefix[OF this] obtain j where j: "h - 1 < j" "py_strip m = take j m" by blast
  then have "h \<le> j" by arith
  from marker_digits_take[OF assms this] j show ?thesis by simp
qed

section \<open>Acquisition and segmentation: the claims\<close>

text \<open>
  C4. With \<open>start_page = 1\<close> and \<open>end_page = 2\<close> on a document of three pages,
  \<open>extract_text_from_pdf\<close> returns the text of the second page alone: it passes
  \<open>range(start_page, end_page)\<close> as zero-based page numbers. The claim asks for pages
  1 and 2, which is what \<open>extract_text_by_page\<close> of the same module returns for the
  same window.
\<close>

theorem extract_text_from_pdf_off_by_one:
  "extract_text_from_pdf [[97], [98], [99]] (Some 1) (Some 2) = [98] \<and>
   extract_text_by_page [[97], [98], [99]] 1 (Some 2) = Inr [[97], [98]]"
  by (simp add: extract_text_from_pdf_def pdfminer_extract_text_def py_range_def
      extract_text_by_page_def enumerate_eq_zip upto.simps)

text \<open>
  C5. The text of the specification's example, two units headed 1 and 2, is segmented
  into exactly these two units, whatever digits exist beyond ASCII. For every text
  without a boundary marker the segmentation is the empty dictionary, and
  \<open>process_file\<close> raises, returning no dictionary, whenever the text it acquired has
  no marker.
\<close>

theorem segmentation_partition:
  "extract_laws_from_text D
      [272, 105, 7873, 117, 32, 49, 46, 32, 65, 32, 272, 105, 7873, 117, 32, 50, 46, 32, 66]
    = [(1, [272, 105, 7873, 117, 32, 49, 46, 32, 65]), (2, [272, 105, 7873, 117, 32, 50, 46, 32, 66])] \<and>
   (\<forall>s. \<not> has_marker D s \<longrightarrow> extract_laws_from_text D s = []) \<and>
   (\<forall>W upl file_type start_page end_page min_word.
      \<not> has_marker D (acquire_text upl file_type start_page end_page) \<longrightarrow>
      process_file D W upl file_type start_page end_page min_word = Inl (RuntimeError ValueError))"
proof -
  have a: "extract_laws_from_text D
      [272, 105, 7873, 117, 32, 49, 46, 32, 65, 32, 272, 105, 7873, 117, 32, 50, 46, 32, 66]
    = [(1, [272, 105, 7873, 117, 32, 49, 46, 32, 65]), (2, [272, 105, 7873, 117, 32, 50, 46, 32, 66])]"
    by (simp add: extract_laws_from_text_def marker_at_def marker_digits_def dieu_def is_digit_def
      digit_value_def int_of_digits_def py_strip_def py_isspace_def)
  have b: "\<not> has_marker D s \<Longrightarrow> extract_laws_from_text D s = []" for s
    by (simp add: extract_laws_from_text_def no_marker_finditer)
  have c: "\<not> has_marker D (acquire_text upl file_type start_page end_page) \<Longrightarrow>
      process_file D W upl file_type start_page end_page min_word = Inl (RuntimeError ValueError)"
    for W upl file_type start_page end_page min_word
    by (simp add: process_file_def Let_def b)
  from a b c show ?thesis by blast
qed

text \<open>Witness for C5: the word without a number after it is no marker.\<close>

theorem segmentation_partition_witness:
  "\<not> has_marker ascii_digits_only [272, 105, 7873, 117, 32, 120, 46] \<and>
   extract_laws_from_text ascii_digits_only [272, 105, 7873, 117, 32, 120, 46] = [] \<and>
   process_file ascii_digits_only latin_letters
     \<lparr>pdf_pages = [[272, 105, 7873, 117, 32, 120, 46]], ocr_text = []\<rparr> ''pdf'' None None 1
     = Inl (RuntimeError ValueError)"
proof -
  have h: "\<not> has_marker ascii_digits_only [272, 105, 7873, 117, 32, 120, 46]"
    by (simp add: marker_at_def marker_digits_def dieu_def is_digit_def digit_value_def
          ascii_digits_only_def)
  have acq: "acquire_text \<lparr>pdf_pages = [[272, 105, 7873, 117, 32, 120, 46]], ocr_text = []\<rparr> ''pdf'' None None
      = [272, 105, 7873, 117, 32, 120, 46]"
    by (simp add: acquire_text_def extract_text_from_pdf_def pdfminer_extract_text_def)
  from segmentation_partition[of ascii_digits_only] h acq show ?thesis by simp
qed

text \<open>
  C8, as amended. Every key of the segmentation is a non-negative integer parsed from
  its unit's boundary marker: the unit stored under the key is the stripped text of a
  match that starts at a boundary marker of the input, the unit itself begins with that
  marker, and the key is the value of the marker's run of digits.
\<close>

theorem law_numbers_from_markers:
  assumes "(k, v) \<in> set (extract_laws_from_text D s)"
  shows "0 \<le> k \<and>
         (\<exists>i m ds. i < length s \<and> marker_at D (drop i s) \<noteq> None \<and>
                    m \<in> set (finditer D s) \<and> m = take (length m) (drop i s) \<and>
                    v = py_strip m \<and> marker_digits D v = Some ds \<and>
                    marker_digits D (drop i s) = Some ds \<and> k = int_of_digits D ds)"
proof -
  have "\<exists>d. laws_loop D (finditer D s) [] = Some d \<and> (k, v) \<in> set d"
  proof (cases "laws_loop D (finditer D s) []")
    case None
    with assms show ?thesis by (simp add: extract_laws_from_text_def)
  next
    case (Some d)
    with assms show ?thesis by (simp add: extract_laws_from_text_def)
  qed
  then obtain d where run: "laws_loop D (finditer D s) [] = Some d" and kv: "(k, v) \<in> set d"
    by blast
  from laws_loop_entries[OF run kv] obtain m ds where m: "m \<in> set (finditer D s)"
    and ds: "marker_digits D m = Some ds" and k: "k = int_of_digits D ds" and v: "v = py_strip m"
    by auto
  from finditer_matches[OF m] obtain i h where i: "i < length s"
    and h: "marker_at D (drop i s) = Some h" "h \<le> length m" and seg: "m = take (length m) (drop i s)"
    by blast
  from marker_at_take[OF h] seg have hm: "marker_at D m = Some h" by simp
  from marker_digits_take[OF h] seg ds have src: "marker_digits D (drop i s) = Some ds" by simp
  from marker_digits_strip[OF hm] ds v have unit: "marker_digits D v = Some ds" by simp
  have "0 \<le> k" by (simp add: k int_of_digits_def)
  with i h(1) m seg v unit src k show ?thesis by blast
qed

text \<open>
  Witness for C8: the unit headed 2, with text before the marker and a space after the
  unit.
\<close>

theorem law_numbers_from_markers_witness:
  "(2, [272, 105, 7873, 117, 32, 50, 46, 32, 66]) \<in> set (extract_laws_from_text ascii_digits_only
      [120, 272, 105, 7873, 117, 32, 50, 46, 32, 66, 32]) \<and>
   (\<exists>ds. marker_digits ascii_digits_only [272, 105, 7873, 117, 32, 50, 46, 32, 66] = Some ds \<and>
      (2::int) = int_of_digits ascii_digits_only ds)"
proof -
  have h: "(2, [272, 105, 7873, 117, 32, 50, 46, 32, 66]) \<in> set (extract_laws_from_text ascii_digits_only
      [120, 272, 105, 7873, 117, 32, 50, 46, 32, 66, 32])"
    by (simp add: extract_laws_from_text_def marker_at_def marker_digits_def dieu_def is_digit_def
      digit_value_def int_of_digits_def py_strip_def py_isspace_def ascii_digits_only_def)
  from law_numbers_from_markers[OF h] h show ?thesis by blast
qed

text \<open>
  Counterexample to C8 as stated: the marker with the number 0 gives the key 0, which is
  not strictly positive.
\<close>

theorem law_number_zero_counterexample:
  "extract_laws_from_text ascii_digits_only [272, 105, 7873, 117, 32, 48, 46, 32, 120]
     = [(0, [272, 105, 7873, 117, 32, 48, 46, 32, 120])]"
  by (simp add: extract_laws_from_text_def marker_at_def marker_digits_def dieu_def is_digit_def
      digit_value_def int_of_digits_def py_strip_def py_isspace_def ascii_digits_only_def)

section \<open>The normalizer: lemmas\<close>

lemma vowel_entries_eval:
  "vowel_entries =
    [([97], 0, 0), ([224], 0, 1), ([225], 0, 2), ([7843], 0, 3), ([227], 0, 4), ([7841], 0, 5),
     ([259], 1, 0), ([7857], 1, 1), ([7855], 1, 2), ([7859], 1, 3), ([7861], 1, 4), ([7863], 1, 5),
     ([226], 2, 0), ([7847], 2, 1), ([7845], 2, 2), ([7849], 2, 3), ([7851], 2, 4), ([7853], 2, 5),
     ([101], 3, 0), ([232], 3, 1), ([233], 3, 2), ([7867], 3, 3), ([7869], 3, 4), ([7865], 3, 5),
     ([234], 4, 0), ([7873], 4, 1), ([7871], 4, 2), ([7875], 4, 3), ([7877], 4, 4), ([7879], 4, 5),
     ([105], 5, 0), ([236], 5, 1), ([237], 5, 2), ([7881], 5, 3), ([297], 5, 4), ([7883], 5, 5),
     ([111], 6, 0), ([242], 6, 1), ([243], 6, 2), ([7887], 6, 3), ([245], 6, 4), ([7885], 6, 5),
     ([244], 7, 0), ([7891], 7, 1), ([7889], 7, 2), ([7893], 7, 3), ([7895], 7, 4), ([7897], 7, 5),
     ([417], 8, 0), ([7901], 8, 1), ([7899], 8, 2), ([7903], 8, 3), ([7905], 8, 4), ([7907], 8, 5),
     ([117], 9, 0), ([249], 9, 1), ([250], 9, 2), ([7911], 9, 3), ([361], 9, 4), ([7909], 9, 5),
     ([432], 10, 0), ([7915], 10, 1), ([7913], 10, 2), ([7917], 10, 3), ([7919], 10, 4), ([7921], 10, 5),
     ([121], 11, 0), ([7923], 11, 1), ([253], 11, 2), ([7927], 11, 3), ([7929], 11, 4), ([7925], 11, 5)]"
  by (simp add: vowel_entries_def vowels_table_def enumerate_eq_zip upt_rec[of _ "numeral _"] upt_rec[of _ "Suc _"])

lemma vowels_to_ids_entries: "vowels_to_ids = map_of (rev vowel_entries)"
  by (simp add: vowels_to_ids_def vowel_entries_def)

lemma vowel_entries_distinct: "distinct (map fst vowel_entries)"
  by (simp add: vowel_entries_eval)

lemma vowel_entries_sound:
  "\<forall>(s, r, c) \<in> set vowel_entries. r < 12 \<and> c < 6 \<and> table_at r c = Some s \<and> length s = 1"
  by (simp add: vowel_entries_eval table_at_def vowels_table_def)

lemma vowel_entries_complete:
  "list_all (\<lambda>r. list_all (\<lambda>c. case table_at r c of Some s \<Rightarrow> (s, r, c) \<in> set vowel_entries | None \<Rightarrow> False)
      [0..<6]) [0..<12]"
  by (simp add: vowel_entries_eval table_at_def vowels_table_def upt_rec[of _ "numeral _"] upt_rec[of _ "Suc _"])

lemma vowels_to_ids_Some:
  assumes "vowels_to_ids s = Some (r, c)"
  shows "r < 12 \<and> c < 6 \<and> table_at r c = Some s \<and> length s = 1"
proof -
  from assms have "(s, r, c) \<in> set vowel_entries"
    unfolding vowels_to_ids_entries by (auto dest: map_of_SomeD)
  with vowel_entries_sound show ?thesis by fastforce
qed

lemma table_at_vowel:
  assumes "r < 12" "c < 6"
  shows "\<exists>s. table_at r c = Some s \<and> vowels_to_ids s = Some (r, c)"
proof -
  from assms have "r \<in> set [0..<12]" "c \<in> set [0..<6]" by simp_all
  with vowel_entries_complete have "case table_at r c of Some s \<Rightarrow> (s, r, c) \<in> set vowel_entries | None \<Rightarrow> False"
    unfolding list_all_iff by blast
  then obtain s where s: "table_at r c = Some s" "(s, r, c) \<in> set vowel_entries"
    by (auto split: option.splits)
  have "distinct (map fst (rev vowel_entries))"
    using vowel_entries_distinct by (simp add: rev_map[symmetric])
  moreover have "(s, r, c) \<in> set (rev vowel_entries)" using s by simp
  ultimately have "map_of (rev vowel_entries) s = Some (r, c)" by (rule map_of_is_SomeI)
  with s show ?thesis by (auto simp: vowels_to_ids_entries)
qed

lemma untoned_vowel:
  assumes "vowels_to_ids s = Some (r, c)"
  shows "vowels_to_ids (untoned s) = Some (r, 0) \<and> table_at r 0 = Some (untoned s)"
proof -
  from vowels_to_ids_Some[OF assms] have r: "r < 12" by simp
  from table_at_vowel[OF r, of 0] obtain b where "table_at r 0 = Some b" "vowels_to_ids b = Some (r, 0)"
    by auto
  with assms show ?thesis by (simp add: untoned_def)
qed

lemma untoned_base: "vowels_to_ids s = Some (r, 0) \<Longrightarrow> untoned s = s"
  using vowels_to_ids_Some[of s r 0] by (simp add: untoned_def)

lemma untoned_other: "vowels_to_ids s = None \<Longrightarrow> untoned s = s"
  by (simp add: untoned_def)

lemma scan_vowels_eq:
  "scan_vowels idx cs t ps = Some (map untoned cs, final_tone cs t, ps @ vowel_indices idx cs)"
proof (induction cs arbitrary: idx t ps)
  case Nil
  then show ?case by simp
next
  case (Cons c cs)
  show ?case
  proof (cases "vowels_to_ids c")
    case None
    then show ?thesis by (simp add: Cons.IH untoned_other)
  next
    case (Some rc)
    obtain r col where rc: "rc = (r, col)" by (cases rc)
    from untoned_vowel[OF Some[unfolded rc]] have b: "table_at r 0 = Some (untoned c)" by simp
    show ?thesis
    proof (cases "col = 0")
      case True
      with Some rc have "untoned c = c" by (simp add: untoned_base)
      with Some rc True show ?thesis by (simp add: Cons.IH)
    next
      case False
      with Some rc b show ?thesis by (simp add: Cons.IH)
    qed
  qed
qed

lemma final_tone_bound: "t < 6 \<Longrightarrow> final_tone cs t < 6"
proof (induction cs arbitrary: t)
  case Nil
  then show ?case by simp
next
  case (Cons c cs)
  show ?case
  proof (cases "vowels_to_ids c")
    case None
    then show ?thesis using Cons by simp
  next
    case (Some rc)
    obtain r col where rc: "rc = (r, col)" by (cases rc)
    from vowels_to_ids_Some[OF Some[unfolded rc]] have "col < 6" by simp
    with Some rc Cons show ?thesis by simp
  qed
qed

lemma vowel_indices_range:
  "p \<in> set (vowel_indices idx cs) \<Longrightarrow> idx \<le> p \<and> p < idx + length cs \<and> vowels_to_ids (cs ! (p - idx)) \<noteq> None"
proof (induction cs arbitrary: idx)
  case Nil
  then show ?case by simp
next
  case (Cons c cs)
  show ?case
  proof (cases "p \<in> set (vowel_indices (Suc idx) cs)")
    case True
    from Cons.IH[OF this] have "Suc idx \<le> p" "p < Suc idx + length cs"
      "vowels_to_ids (cs ! (p - Suc idx)) \<noteq> None" by auto
    moreover from \<open>Suc idx \<le> p\<close> have "p - idx = Suc (p - Suc idx)" by arith
    then have "(c # cs) ! (p - idx) = cs ! (p - Suc idx)" by simp
    ultimately show ?thesis by auto
  next
    case False
    with Cons.prems have "p = idx \<and> vowels_to_ids c \<noteq> None" by (auto split: if_splits)
    then show ?thesis by auto
  qed
qed

lemma put_tone_eq:
  assumes "p < length chars" "vowels_to_ids (chars ! p) \<noteq> None" "t < 6"
  shows "put_tone chars p t = Some (chars[p := toned (chars ! p) t])"
proof -
  from assms(2) obtain r c where rc: "vowels_to_ids (chars ! p) = Some (r, c)" by auto
  from vowels_to_ids_Some[OF rc] have "r < 12" by simp
  from table_at_vowel[OF this assms(3)] obtain v where "table_at r t = Some v" by auto
  with rc assms(1) show ?thesis by (simp add: put_tone_def toned_def)
qed

lemma priority_vowel_eq:
  assumes "\<forall>p \<in> set ps. p < length chars \<and> vowels_to_ids (chars ! p) \<noteq> None" "t < 6"
  shows "priority_vowel chars t ps =
     Some (case find (\<lambda>p. vowel_row (chars ! p) = Some 4 \<or> vowel_row (chars ! p) = Some 8) ps of
             Some p \<Rightarrow> Some (chars[p := toned (chars ! p) t])
           | None \<Rightarrow> None)"
  using assms(1)
proof (induction ps)
  case Nil
  then show ?case by simp
next
  case (Cons p ps)
  then have p: "p < length chars" and v: "vowels_to_ids (chars ! p) \<noteq> None" by auto
  from v obtain r c where rc: "vowels_to_ids (chars ! p) = Some (r, c)" by auto
  from vowels_to_ids_Some[OF rc] have "r < 12" by simp
  from table_at_vowel[OF this assms(2)] obtain v where tv: "table_at r t = Some v" by auto
  from Cons have IH: "priority_vowel chars t ps =
     Some (case find (\<lambda>p. vowel_row (chars ! p) = Some 4 \<or> vowel_row (chars ! p) = Some 8) ps of
             Some p \<Rightarrow> Some (chars[p := toned (chars ! p) t])
           | None \<Rightarrow> None)" by simp
  show ?case using p rc tv IH
    by (simp add: vowel_row_def toned_def)
qed

lemma vowel_indices_base:
  assumes "p \<in> set (vowel_indices 0 chars)"
  shows "p < length (map untoned chars) \<and> vowels_to_ids (map untoned chars ! p) \<noteq> None"
proof -
  from vowel_indices_range[OF assms] have p: "p < length chars" and v: "vowels_to_ids (chars ! p) \<noteq> None"
    by auto
  from v obtain r c where "vowels_to_ids (chars ! p) = Some (r, c)" by auto
  from untoned_vowel[OF this] p show ?thesis by simp
qed

lemma tone_position_mem: "tone_position chars ps = Some p \<Longrightarrow> p \<in> set ps"
proof -
  assume a: "tone_position chars ps = Some p"
  show ?thesis
  proof (cases "length ps < 2")
    case True
    with a show ?thesis by (cases ps) (auto simp: tone_position_def split: if_splits)
  next
    case False
    then have "1 < length ps" by simp
    then have "ps ! 1 \<in> set ps" by (rule nth_mem)
    with a False show ?thesis
      by (auto simp: tone_position_def split: option.splits dest: find_Some_iff[THEN iffD1] nth_mem)
  qed
qed

lemma standardize_word_typing_eq:
  "standardize_word_typing w = Some (concat (retoned (map (\<lambda>c. [c]) w)))"
proof -
  let ?C = "map (\<lambda>c. [c]) w"
  let ?B = "map untoned ?C"
  let ?t = "final_tone ?C 0"
  let ?ps = "vowel_indices 0 ?C"
  have t: "?t < 6" by (rule final_tone_bound) simp
  have ok: "\<forall>p \<in> set ?ps. p < length ?B \<and> vowels_to_ids (?B ! p) \<noteq> None"
    using vowel_indices_base by blast
  show ?thesis
  proof (cases "length ?ps < 2")
    case True
    show ?thesis
    proof (cases "?ps = []")
      case True
      then show ?thesis
        by (simp add: standardize_word_typing_def scan_vowels_eq retoned_def tone_position_def Let_def)
    next
      case False
      then have "?ps ! 0 \<in> set ?ps" by (cases ?ps) auto
      with ok have "?ps ! 0 < length ?B" "vowels_to_ids (?B ! (?ps ! 0)) \<noteq> None" by blast+
      from put_tone_eq[OF this t] True False show ?thesis
        by (simp add: standardize_word_typing_def scan_vowels_eq retoned_def tone_position_def Let_def)
    qed
  next
    case False
    then have "1 < length ?ps" by simp
    then have "?ps ! 1 \<in> set ?ps" by (rule nth_mem)
    with ok have "?ps ! 1 < length ?B" "vowels_to_ids (?B ! (?ps ! 1)) \<noteq> None" by blast+
    note second = put_tone_eq[OF this t]
    note first = priority_vowel_eq[OF ok t]
    show ?thesis
      using False first second
      by (simp add: standardize_word_typing_def scan_vowels_eq retoned_def tone_position_def Let_def
            split: option.splits)
  qed
qed

lemma untoned_idem: "untoned (untoned s) = untoned s"
proof (cases "vowels_to_ids s")
  case None
  then show ?thesis by (simp add: untoned_other)
next
  case (Some rc)
  obtain r c where "rc = (r, c)" by (cases rc)
  with Some untoned_vowel[of s r c] show ?thesis by (simp add: untoned_base)
qed

lemma untoned_is_vowel: "(vowels_to_ids (untoned s) \<noteq> None) = (vowels_to_ids s \<noteq> None)"
proof (cases "vowels_to_ids s")
  case None
  then show ?thesis by (simp add: untoned_other)
next
  case (Some rc)
  obtain r c where "rc = (r, c)" by (cases rc)
  with Some untoned_vowel[of s r c] show ?thesis by simp
qed

lemma toned_vowel:
  assumes "vowels_to_ids s = Some (r, c)" "t < 6"
  shows "vowels_to_ids (toned s t) = Some (r, t)"
proof -
  from vowels_to_ids_Some[OF assms(1)] have "r < 12" by simp
  from table_at_vowel[OF this assms(2)] obtain v where "table_at r t = Some v" "vowels_to_ids v = Some (r, t)"
    by auto
  with assms(1) show ?thesis by (simp add: toned_def)
qed

lemma untoned_toned:
  assumes "vowels_to_ids s = Some (r, 0)" "t < 6"
  shows "untoned (toned s t) = s"
proof -
  from toned_vowel[OF assms] have "vowels_to_ids (toned s t) = Some (r, t)" .
  from untoned_vowel[OF this] have "table_at r 0 = Some (untoned (toned s t))" by simp
  moreover from vowels_to_ids_Some[OF assms(1)] have "table_at r 0 = Some s" by simp
  ultimately show ?thesis by simp
qed

lemma vowel_indices_cong:
  "map (\<lambda>s. vowels_to_ids s \<noteq> None) xs = map (\<lambda>s. vowels_to_ids s \<noteq> None) ys \<Longrightarrow>
   vowel_indices idx xs = vowel_indices idx ys"
proof (induction xs arbitrary: ys idx)
  case Nil
  then show ?case by simp
next
  case (Cons x xs)
  then obtain y ys' where ys: "ys = y # ys'" by (cases ys) auto
  with Cons.prems have "(vowels_to_ids x \<noteq> None) = (vowels_to_ids y \<noteq> None)"
    and "map (\<lambda>s. vowels_to_ids s \<noteq> None) xs = map (\<lambda>s. vowels_to_ids s \<noteq> None) ys'" by auto
  with Cons.IH[of ys' "Suc idx"] ys show ?case by auto
qed

lemma final_tone_append: "final_tone (xs @ ys) t = final_tone ys (final_tone xs t)"
  by (induction xs arbitrary: t) (auto split: option.splits)

lemma final_tone_base:
  "(\<And>s r c. s \<in> set xs \<Longrightarrow> vowels_to_ids s = Some (r, c) \<Longrightarrow> c = 0) \<Longrightarrow> final_tone xs t = t"
proof (induction xs arbitrary: t)
  case Nil
  then show ?case by simp
next
  case (Cons x xs)
  have IH: "final_tone xs t = t" for t
    by (rule Cons.IH) (use Cons.prems in auto)
  show ?case
  proof (cases "vowels_to_ids x")
    case None
    then show ?thesis by (simp add: IH)
  next
    case (Some rc)
    obtain r c where rc: "rc = (r, c)" by (cases rc)
    with Some Cons.prems[of x r c] have "c = 0" by simp
    with Some rc show ?thesis by (simp add: IH)
  qed
qed

lemma base_cols:
  assumes "s \<in> set (map untoned chars)" "vowels_to_ids s = Some (r, c)"
  shows "c = 0"
proof -
  from assms(1) obtain x where s: "s = untoned x" by auto
  show ?thesis
  proof (cases "vowels_to_ids x")
    case None
    with s assms(2) show ?thesis by (simp add: untoned_other)
  next
    case (Some rc)
    obtain r' c' where "rc = (r', c')" by (cases rc)
    with Some untoned_vowel[of x r' c'] s assms(2) show ?thesis by simp
  qed
qed

lemma tone_position_None: "tone_position chars ps = None \<Longrightarrow> ps = []"
  by (auto simp: tone_position_def split: if_splits option.splits)

lemma vowel_indices_Nil:
  "vowel_indices idx cs = [] \<Longrightarrow> s \<in> set cs \<Longrightarrow> vowels_to_ids s = None"
proof (induction cs arbitrary: idx)
  case Nil
  then show ?case by simp
next
  case (Cons c cs)
  have c: "vowels_to_ids c = None" and rest: "vowel_indices (Suc idx) cs = []"
  proof -
    show "vowels_to_ids c = None"
    proof (cases "vowels_to_ids c")
      case None
      then show ?thesis .
    next
      case (Some rc)
      with Cons.prems(1) show ?thesis by simp
    qed
    then show "vowel_indices (Suc idx) cs = []" using Cons.prems(1) by simp
  qed
  from Cons.prems(2) have "s = c \<or> s \<in> set cs" by simp
  then show ?case
  proof
    assume "s = c" with c show ?thesis by simp
  next
    assume "s \<in> set cs" with Cons.IH[OF rest] show ?thesis by simp
  qed
qed

lemma vowel_indices_untoned: "vowel_indices idx (map untoned cs) = vowel_indices idx cs"
  by (rule vowel_indices_cong) (simp only: map_map comp_def untoned_is_vowel)

lemma map_untoned_base: "map untoned (map untoned cs) = map untoned cs"
  by (simp add: untoned_idem)

lemma retoned_idem: "retoned (retoned chars) = retoned chars"
proof -
  let ?B = "map untoned chars"
  let ?t = "final_tone chars 0"
  let ?ps = "vowel_indices 0 chars"
  have t: "?t < 6" by (rule final_tone_bound) simp
  have base_tone: "final_tone xs t0 = t0" if "set xs \<subseteq> set ?B" for xs t0
    by (rule final_tone_base) (use that base_cols in blast)
  show ?thesis
  proof (cases "tone_position ?B ?ps")
    case None
    then have ps: "?ps = []" by (rule tone_position_None)
    have R: "retoned chars = ?B" using None by (simp add: retoned_def Let_def)
    have "retoned ?B = ?B"
      unfolding retoned_def Let_def map_untoned_base vowel_indices_untoned ps
      by (simp add: tone_position_def)
    with R show ?thesis by simp
  next
    case (Some p)
    then have "p \<in> set ?ps" by (rule tone_position_mem)
    from vowel_indices_base[OF this] have p: "p < length ?B" and v: "vowels_to_ids (?B ! p) \<noteq> None"
      by auto
    from v obtain r c where rc: "vowels_to_ids (?B ! p) = Some (r, c)" by auto
    from p have "?B ! p \<in> set ?B" by (rule nth_mem)
    from base_cols[OF this rc] rc have r0: "vowels_to_ids (?B ! p) = Some (r, 0)" by simp
    let ?v = "toned (?B ! p) ?t"
    let ?R = "?B[p := ?v]"
    have R: "retoned chars = ?R" using Some by (simp add: retoned_def Let_def)
    have vt: "vowels_to_ids ?v = Some (r, ?t)" by (rule toned_vowel[OF r0 t])
    have uv: "untoned ?v = ?B ! p" by (rule untoned_toned[OF r0 t])
    have m1: "map untoned ?R = ?B"
    proof -
      have "map untoned ?R = (map untoned ?B)[p := untoned ?v]" by (rule map_update)
      also have "\<dots> = ?B[p := ?B ! p]" by (simp only: map_untoned_base uv)
      also have "\<dots> = ?B" by simp
      finally show ?thesis .
    qed
    have m2: "vowel_indices 0 ?R = ?ps"
    proof -
      have "map (\<lambda>s. vowels_to_ids s \<noteq> None) ?R
          = (map (\<lambda>s. vowels_to_ids s \<noteq> None) ?B)[p := vowels_to_ids ?v \<noteq> None]"
        by (rule map_update)
      also have "\<dots> = (map (\<lambda>s. vowels_to_ids s \<noteq> None) ?B)[p := (map (\<lambda>s. vowels_to_ids s \<noteq> None) ?B) ! p]"
        using p vt v by simp
      also have "\<dots> = map (\<lambda>s. vowels_to_ids s \<noteq> None) ?B" by simp
      finally have "vowel_indices 0 ?R = vowel_indices 0 ?B" by (rule vowel_indices_cong)
      then show ?thesis by (simp add: vowel_indices_untoned)
    qed
    have m3: "final_tone ?R 0 = ?t"
    proof -
      have split: "?R = take p ?B @ ?v # drop (Suc p) ?B"
        using p by (rule upd_conv_take_nth_drop)
      have a: "final_tone (take p ?B) 0 = 0"
        by (rule base_tone) (rule set_take_subset)
      have b: "final_tone (drop (Suc p) ?B) ?t = ?t"
        by (rule base_tone) (rule set_drop_subset)
      have "final_tone ?R 0 = final_tone (?v # drop (Suc p) ?B) (final_tone (take p ?B) 0)"
        unfolding split by (rule final_tone_append)
      also have "\<dots> = final_tone (drop (Suc p) ?B) ?t"
        using vt a by simp
      finally show ?thesis using b by simp
    qed
    have "retoned ?R = ?R"
      unfolding retoned_def Let_def m1 m2 m3 using Some by simp
    with R show ?thesis by simp
  qed
qed

lemma retoned_length: "length (retoned chars) = length chars"
  by (simp add: retoned_def Let_def split: option.splits)

lemma retoned_entries:
  assumes "e \<in> set (retoned chars)"
  shows "e \<in> set chars \<or> vowels_to_ids e \<noteq> None"
proof -
  have base: "e \<in> set chars \<or> vowels_to_ids e \<noteq> None" if "e \<in> set (map untoned chars)" for e
  proof -
    from that obtain x where x: "x \<in> set chars" "e = untoned x" by auto
    show ?thesis
    proof (cases "vowels_to_ids x")
      case None
      with x show ?thesis by (simp add: untoned_other)
    next
      case (Some rc)
      obtain r c where "rc = (r, c)" by (cases rc)
      with Some untoned_vowel[of x r c] have "vowels_to_ids (untoned x) = Some (r, 0)" by simp
      with x show ?thesis by simp
    qed
  qed
  show ?thesis
  proof (cases "tone_position (map untoned chars) (vowel_indices 0 chars)")
    case None
    with assms have "e \<in> set (map untoned chars)" by (simp add: retoned_def Let_def)
    then show ?thesis by (rule base)
  next
    case (Some p)
    then have "p \<in> set (vowel_indices 0 chars)" by (rule tone_position_mem)
    from vowel_indices_base[OF this] obtain r c where
      rc: "vowels_to_ids (map untoned chars ! p) = Some (r, c)" by auto
    have t: "final_tone chars 0 < 6" by (rule final_tone_bound) simp
    from assms Some have "e \<in> set ((map untoned chars)[p := toned (map untoned chars ! p) (final_tone chars 0)])"
      by (simp add: retoned_def Let_def)
    then have "e = toned (map untoned chars ! p) (final_tone chars 0) \<or> e \<in> set (map untoned chars)"
      using set_update_subset_insert by fastforce
    then show ?thesis
    proof
      assume "e = toned (map untoned chars ! p) (final_tone chars 0)"
      with toned_vowel[OF rc t] show ?thesis by simp
    next
      assume "e \<in> set (map untoned chars)"
      then show ?thesis by (rule base)
    qed
  qed
qed

lemma vowel_single: "vowels_to_ids e \<noteq> None \<Longrightarrow> length e = 1"
  using vowels_to_ids_Some by fastforce

lemma singles_concat: "(\<And>s. s \<in> set xs \<Longrightarrow> length s = 1) \<Longrightarrow> map (\<lambda>c. [c]) (concat xs) = xs"
proof (induction xs)
  case Nil
  then show ?case by simp
next
  case (Cons x xs)
  from Cons.prems[of x] obtain c where "x = [c]" by (cases x) auto
  with Cons show ?case by simp
qed

lemma retoned_singles:
  assumes "s \<in> set (retoned (map (\<lambda>c. [c]) w))"
  shows "length s = 1"
  using retoned_entries[OF assms] vowel_single by auto

lemma standardize_word_typing_idem:
  assumes "standardize_word_typing w = Some w'"
  shows "standardize_word_typing w' = Some w'"
proof -
  let ?R = "retoned (map (\<lambda>c. [c]) w)"
  from assms have w': "w' = concat ?R" by (simp add: standardize_word_typing_eq)
  have "map (\<lambda>c. [c]) w' = ?R" unfolding w' by (rule singles_concat) (rule retoned_singles)
  then show ?thesis by (simp add: standardize_word_typing_eq retoned_idem w'[symmetric])
qed

lemma standardize_word_typing_length:
  assumes "standardize_word_typing w = Some w'"
  shows "length w' = length w"
proof -
  let ?R = "retoned (map (\<lambda>c. [c]) w)"
  from assms have w': "w' = concat ?R" by (simp add: standardize_word_typing_eq)
  have "map (\<lambda>c. [c]) w' = ?R" unfolding w' by (rule singles_concat) (rule retoned_singles)
  then have "length (map (\<lambda>c. [c]) w') = length ?R" by simp
  then show ?thesis by (simp add: retoned_length)
qed

lemma standardize_word_typing_chars:
  assumes "standardize_word_typing w = Some w'" "x \<in> set w'"
  shows "x \<in> set w \<or> vowels_to_ids [x] \<noteq> None"
proof -
  let ?R = "retoned (map (\<lambda>c. [c]) w)"
  from assms have w': "w' = concat ?R" by (simp add: standardize_word_typing_eq)
  with assms(2) obtain e where e: "e \<in> set ?R" "x \<in> set e" by auto
  from retoned_singles[OF e(1)] e(2) have ex: "e = [x]" by (cases e) auto
  from retoned_entries[OF e(1)] ex show ?thesis by auto
qed

lemma standardize_word_typing_total: "standardize_word_typing w = Some (standardized w)"
  by (simp add: standardize_word_typing_eq standardized_def)

lemma standardized_idem: "standardized (standardized w) = standardized w"
  using standardize_word_typing_idem[of w "standardized w"]
  by (simp add: standardize_word_typing_total)

lemma standardized_length: "length (standardized w) = length w"
  using standardize_word_typing_length[of w "standardized w"]
  by (simp add: standardize_word_typing_total)

lemma standardized_chars:
  "x \<in> set (standardized w) \<Longrightarrow> x \<in> set w \<or> vowels_to_ids [x] \<noteq> None"
  using standardize_word_typing_chars[of w "standardized w" x]
  by (simp add: standardize_word_typing_total)

lemma those_total: "(\<And>x. f x = Some (g x)) \<Longrightarrow> those (map f xs) = Some (map g xs)"
  by (induction xs) simp_all

lemma standardize_sentence_typing_total:
  "standardize_sentence_typing s = Some (py_join [32] (map standardized (py_split s)))"
  by (simp add: standardize_sentence_typing_def those_total[of standardize_word_typing standardized]
        standardize_word_typing_total)

lemma text_preprocess_eq:
  "text_preprocess W s = Some (remove_unnecessary_characters W
     (py_join [32] (map standardized (py_split (convert_unicode (remove_html_tags s))))))"
  by (simp add: text_preprocess_def standardize_sentence_typing_total)

lemma remove_html_tags_id: "60 \<notin> set s \<Longrightarrow> remove_html_tags s = s"
  by (induction s) auto

lemma char1252_marks: "\<forall>k \<in> set char1252. length k = 2 \<and> k ! 1 \<in> set tone_marks"
  by (simp add: char1252_def tone_marks_def)

lemma conversion_dict_mark:
  assumes "map_of conversion_dict [a, b] = Some v"
  shows "b \<in> set tone_marks"
proof -
  from assms have "([a, b], v) \<in> set (zip char1252 charutf8)"
    unfolding conversion_dict_def by (rule map_of_SomeD)
  then have "[a, b] \<in> set char1252" by (rule set_zip_leftD)
  with char1252_marks have "[a, b] ! 1 \<in> set tone_marks" by blast
  then show ?thesis by simp
qed

lemma convert_unicode_id: "set s \<inter> set tone_marks = {} \<Longrightarrow> convert_unicode s = s"
proof (induction s rule: convert_unicode.induct)
  case (1 a b cs)
  have "map_of conversion_dict [a, b] = None"
  proof (cases "map_of conversion_dict [a, b]")
    case None
    then show ?thesis .
  next
    case (Some v)
    from conversion_dict_mark[OF this] "1.prems" show ?thesis by auto
  qed
  note none = this
  from "1.prems" have "set (b # cs) \<inter> set tone_marks = {}" by auto
  from "1.IH"(1)[OF none this] none show ?case by simp
qed simp_all

lemma split_from_word:
  "(\<And>c. c \<in> set w \<Longrightarrow> \<not> py_isspace c) \<Longrightarrow> split_from cur (w @ rest) = split_from (cur @ w) rest"
proof (induction w arbitrary: cur)
  case Nil
  then show ?case by simp
next
  case (Cons c w)
  have "split_from cur ((c # w) @ rest) = split_from (cur @ [c]) (w @ rest)"
    using Cons.prems[of c] by simp
  also have "\<dots> = split_from ((cur @ [c]) @ w) rest"
    by (rule Cons.IH) (use Cons.prems in auto)
  finally show ?case by simp
qed

lemma py_space_32: "py_isspace 32"
  by (simp add: py_isspace_def)

lemma py_split_join:
  assumes "\<And>w. w \<in> set ws \<Longrightarrow> w \<noteq> [] \<and> (\<forall>c \<in> set w. \<not> py_isspace c)"
  shows "py_split (py_join [32] ws) = ws"
  using assms
proof (induction ws rule: induct_list012)
  case 1
  then show ?case by (simp add: py_split_def)
next
  case (2 w)
  then have w: "w \<noteq> []" "\<And>c. c \<in> set w \<Longrightarrow> \<not> py_isspace c" by auto
  have "split_from [] (w @ []) = split_from ([] @ w) []" by (rule split_from_word) (rule w(2))
  with w(1) show ?case by (simp add: py_split_def)
next
  case (3 w v ws)
  then have w: "w \<noteq> []" "\<And>c. c \<in> set w \<Longrightarrow> \<not> py_isspace c" by auto
  have IH: "py_split (py_join [32] (v # ws)) = v # ws"
    by (rule "3.IH"(2)) (use "3.prems" in auto)
  have "split_from [] (w @ 32 # py_join [32] (v # ws)) = split_from ([] @ w) (32 # py_join [32] (v # ws))"
    by (rule split_from_word) (rule w(2))
  also have "\<dots> = w # split_from [] (py_join [32] (v # ws))"
    using w(1) by (simp add: py_space_32)
  finally show ?case using IH by (simp add: py_split_def)
qed

lemma split_from_words:
  assumes "w \<in> set (split_from cur s)" "\<And>c. c \<in> set cur \<Longrightarrow> \<not> py_isspace c"
  shows "w \<noteq> [] \<and> (\<forall>c \<in> set w. \<not> py_isspace c \<and> c \<in> set cur \<union> set s)"
  using assms
proof (induction s arbitrary: cur)
  case Nil
  then show ?case by (auto split: if_splits)
next
  case (Cons a s)
  show ?case
  proof (cases "py_isspace a")
    case True
    show ?thesis
    proof (cases "w = cur \<and> cur \<noteq> []")
      case True
      with Cons.prems(2) show ?thesis by auto
    next
      case False
      with Cons.prems(1) \<open>py_isspace a\<close> have "w \<in> set (split_from [] s)"
        by (auto split: if_splits)
      from Cons.IH[OF this] show ?thesis by auto
    qed
  next
    case False
    with Cons.prems(1) have "w \<in> set (split_from (cur @ [a]) s)" by simp
    moreover have "\<And>c. c \<in> set (cur @ [a]) \<Longrightarrow> \<not> py_isspace c"
      using False Cons.prems(2) by auto
    ultimately have "w \<noteq> [] \<and> (\<forall>c \<in> set w. \<not> py_isspace c \<and> c \<in> set (cur @ [a]) \<union> set s)"
      by (rule Cons.IH)
    then show ?thesis by auto
  qed
qed

lemma py_split_words:
  "w \<in> set (py_split s) \<Longrightarrow> w \<noteq> [] \<and> (\<forall>c \<in> set w. \<not> py_isspace c \<and> c \<in> set s)"
  using split_from_words[of w "[]" s] by (simp add: py_split_def)

lemma solid_kept: "solid W c \<Longrightarrow> kept_character W c"
  by (auto simp: solid_def kept_character_def)

lemma regex_space_py: "regex_space c \<Longrightarrow> py_isspace c"
  by (auto simp: regex_space_def py_isspace_def)

lemma solid_not_space: "solid W c \<Longrightarrow> \<not> regex_space c \<and> \<not> py_isspace c"
  using regex_space_py by (auto simp: solid_def)

lemma kept_32: "kept_character W 32"
  by (simp add: kept_character_def regex_space_def)

lemma vowel_entries_solid: "\<forall>(s, r, c) \<in> set vowel_entries. \<forall>x \<in> set s. solid W x"
  by (simp add: vowel_entries_eval solid_def py_isspace_def regex_word_def vietnamese_letters_def
        tone_marks_def)

lemma vowel_solid:
  assumes "vowels_to_ids [x] \<noteq> None"
  shows "solid W x"
proof -
  from assms obtain r c where "vowels_to_ids [x] = Some (r, c)" by auto
  then have "([x], r, c) \<in> set vowel_entries"
    unfolding vowels_to_ids_entries by (auto dest: map_of_SomeD)
  with vowel_entries_solid[of W] show ?thesis by fastforce
qed

lemma join_chars: "c \<in> set (py_join [32] ws) \<Longrightarrow> c = 32 \<or> (\<exists>w \<in> set ws. c \<in> set w)"
  by (induction ws rule: induct_list012) auto

lemma join_hd: "v \<noteq> [] \<Longrightarrow> py_join sep (v # ws) \<noteq> [] \<and> hd (py_join sep (v # ws)) = hd v"
  by (cases ws) auto

lemma join_last:
  "(\<And>w. w \<in> set (v # ws) \<Longrightarrow> w \<noteq> []) \<Longrightarrow> last (py_join sep (v # ws)) = last (last (v # ws))"
proof (induction ws arbitrary: v)
  case Nil
  then show ?case by simp
next
  case (Cons u ws)
  have "last (py_join sep (u # ws)) = last (last (u # ws))"
    by (rule Cons.IH) (use Cons.prems in auto)
  moreover have "py_join sep (u # ws) \<noteq> []"
    using join_hd[of u sep ws] Cons.prems[of u] by simp
  ultimately show ?case by simp
qed

lemma collapse_word:
  "(\<And>c. c \<in> set w \<Longrightarrow> \<not> regex_space c) \<Longrightarrow> collapse_spaces (w @ rest) = w @ collapse_spaces rest"
  by (induction w) auto

lemma collapse_join:
  assumes "normal W ws"
  shows "collapse_spaces (py_join [32] ws) = py_join [32] ws"
  using assms
proof (induction ws rule: induct_list012)
  case 1
  then show ?case by simp
next
  case (2 w)
  then have "\<And>c. c \<in> set w \<Longrightarrow> \<not> regex_space c"
    using solid_not_space by (auto simp: normal_def)
  from collapse_word[OF this, of w "[]"] show ?case by simp
next
  case (3 w v ws)
  then have w: "\<And>c. c \<in> set w \<Longrightarrow> \<not> regex_space c"
    using solid_not_space by (auto simp: normal_def)
  from "3.prems" have nv: "normal W (v # ws)" by (simp add: normal_def)
  then have v: "v \<noteq> []" "\<not> regex_space (hd v)"
    using solid_not_space[of W "hd v"] by (auto simp: normal_def)
  let ?J = "py_join [32] (v # ws)"
  from join_hd[OF v(1), of "[32]" ws] v(2) have "dropWhile regex_space ?J = ?J"
    by (cases ?J) auto
  moreover have "regex_space 32" by (simp add: regex_space_def)
  ultimately have "collapse_spaces (32 # ?J) = 32 # collapse_spaces ?J" by simp
  with collapse_word[of w "32 # ?J", OF w] "3.IH"(2)[OF nv] show ?case by simp
qed

lemma dropWhile_hd: "xs = [] \<or> \<not> P (hd xs) \<Longrightarrow> dropWhile P xs = xs"
  by (cases xs) auto

lemma py_strip_id:
  assumes "s = [] \<or> (\<not> py_isspace (hd s) \<and> \<not> py_isspace (last s))"
  shows "py_strip s = s"
proof (cases s)
  case Nil
  then show ?thesis by (simp add: py_strip_def)
next
  case (Cons a as)
  with assms have h: "\<not> py_isspace a" and l: "\<not> py_isspace (last s)" by auto
  from h Cons have "dropWhile py_isspace s = s" by simp
  moreover have "hd (rev s) = last s" using Cons by (simp add: hd_rev)
  with l have "dropWhile py_isspace (rev s) = rev s" by (intro dropWhile_hd) simp
  ultimately show ?thesis by (simp add: py_strip_def)
qed

lemma remove_unnecessary_join:
  assumes "normal W ws"
  shows "remove_unnecessary_characters W (py_join [32] ws) = py_join [32] ws"
proof -
  let ?J = "py_join [32] ws"
  have "\<And>c. c \<in> set ?J \<Longrightarrow> kept_character W c"
    using join_chars[of _ ws] assms solid_kept kept_32 by (fastforce simp: normal_def)
  then have m: "map (\<lambda>c. if kept_character W c then c else 32) ?J = ?J"
    by (intro map_idI) simp
  have s: "py_strip ?J = ?J"
  proof (cases ws)
    case Nil
    then show ?thesis by (simp add: py_strip_def)
  next
    case (Cons v vs)
    with assms have ne: "\<And>w. w \<in> set (v # vs) \<Longrightarrow> w \<noteq> []" by (auto simp: normal_def)
    from ne[of v] have v: "v \<noteq> []" by simp
    have lw: "last (v # vs) \<in> set ws" unfolding Cons by (rule last_in_set) simp
    with assms have "last (v # vs) \<noteq> []" "\<forall>c \<in> set (last (v # vs)). solid W c"
      by (auto simp: normal_def)
    then have "solid W (last (last (v # vs)))" by simp
    moreover have "last (py_join [32] (v # vs)) = last (last (v # vs))"
      by (rule join_last) (rule ne)
    ultimately have a: "\<not> py_isspace (last ?J)"
      unfolding Cons using solid_not_space[of W "last (last (v # vs))"] by simp
    from assms Cons v have "solid W (hd v)" by (auto simp: normal_def)
    then have b: "\<not> py_isspace (hd ?J)"
      unfolding Cons using join_hd[OF v, of "[32]" vs] solid_not_space[of W "hd v"] by simp
    from a b show ?thesis by (intro py_strip_id) simp
  qed
  show ?thesis
    by (simp add: remove_unnecessary_characters_def m collapse_join[OF assms] s)
qed

lemma clean_facts:
  assumes "clean W s"
  shows "60 \<notin> set s" and "set s \<inter> set tone_marks = {}"
    and "\<And>c. c \<in> set s \<Longrightarrow> \<not> py_isspace c \<Longrightarrow> solid W c"
proof -
  from assms have all: "\<And>c. c \<in> set s \<Longrightarrow> py_isspace c \<or> solid W c"
    by (auto simp: clean_def list_all_iff)
  have "\<not> (py_isspace 60 \<or> solid W 60)"
    by (simp add: py_isspace_def solid_def regex_word_def vietnamese_letters_def)
  with all show "60 \<notin> set s" by blast
  have "\<And>c. c \<in> set tone_marks \<Longrightarrow> \<not> (py_isspace c \<or> solid W c)"
    by (auto simp: py_isspace_def solid_def tone_marks_def)
  with all show "set s \<inter> set tone_marks = {}" by blast
  show "\<And>c. c \<in> set s \<Longrightarrow> \<not> py_isspace c \<Longrightarrow> solid W c" using all by blast
qed

lemma standardized_words_normal:
  assumes "clean W s"
  shows "normal W (map standardized (py_split s))"
  unfolding normal_def
proof (intro ballI conjI)
  fix w' assume "w' \<in> set (map standardized (py_split s))"
  then obtain w where w: "w \<in> set (py_split s)" and w': "w' = standardized w" by auto
  from py_split_words[OF w] have ne: "w \<noteq> []" and ch: "\<forall>c \<in> set w. \<not> py_isspace c \<and> c \<in> set s"
    by auto
  from ne show "w' \<noteq> []" using standardized_length[of w] w' by auto
  fix x assume "x \<in> set w'"
  with w' standardized_chars[of x w] have "x \<in> set w \<or> vowels_to_ids [x] \<noteq> None" by simp
  then show "solid W x"
  proof
    assume "x \<in> set w"
    with ch clean_facts(3)[OF assms] show ?thesis by blast
  next
    assume "vowels_to_ids [x] \<noteq> None"
    then show ?thesis by (rule vowel_solid)
  qed
qed

lemma text_preprocess_clean:
  assumes "clean W s"
  shows "text_preprocess W s = Some (py_join [32] (map standardized (py_split s)))"
  by (simp add: text_preprocess_eq remove_html_tags_id[OF clean_facts(1)[OF assms]]
        convert_unicode_id[OF clean_facts(2)[OF assms]]
        remove_unnecessary_join[OF standardized_words_normal[OF assms]])

lemma normal_join_clean:
  assumes "normal W ws"
  shows "clean W (py_join [32] ws)"
  unfolding clean_def list_all_iff
proof
  fix c assume "c \<in> set (py_join [32] ws)"
  from join_chars[OF this] show "py_isspace c \<or> solid W c"
    using assms py_space_32 by (auto simp: normal_def)
qed

lemma normal_split_join:
  assumes "normal W ws"
  shows "py_split (py_join [32] ws) = ws"
  by (rule py_split_join) (use assms solid_not_space in \<open>auto simp: normal_def\<close>)

lemmas normalizer_eval = text_preprocess_def standardize_sentence_typing_def py_split_def
  standardize_word_typing_def vowels_to_ids_entries vowel_entries_eval table_at_def vowels_table_def
  put_tone_def remove_unnecessary_characters_def kept_character_def regex_space_def regex_word_def
  latin_letters_def vietnamese_letters_def py_strip_def py_isspace_def

lemma text_preprocess_plain:
  "60 \<notin> set s \<Longrightarrow> set s \<inter> set tone_marks = {} \<Longrightarrow>
   text_preprocess W s =
     map_option (remove_unnecessary_characters W) (standardize_sentence_typing s)"
  by (simp add: text_preprocess_def remove_html_tags_id convert_unicode_id)

lemma remove_html_tags_chars: "set (remove_html_tags s) \<subseteq> set s"
proof (induction s rule: remove_html_tags.induct)
  case 1
  then show ?case by simp
next
  case (2 c cs)
  show ?case
  proof (cases "c = 60 \<and> 62 \<in> set cs")
    case True
    have "set (tl (dropWhile (\<lambda>x. x \<noteq> 62) cs)) \<subseteq> set cs"
      by (metis list.set_sel(2) set_dropWhileD subsetI tl_Nil)
    with 2(1)[OF True] True show ?thesis by auto
  next
    case False
    with 2(2)[OF False] show ?thesis by auto
  qed
qed

lemma charutf8_no_marks: "\<forall>v \<in> set charutf8. set v \<inter> set tone_marks = {}"
  by (simp add: charutf8_def tone_marks_def)

lemma convert_unicode_no_marks:
  "set s \<inter> set tone_marks = {} \<Longrightarrow> set (convert_unicode s) \<inter> set tone_marks = {}"
  by (simp add: convert_unicode_id)

lemma collapse_spaces_chars:
  "c \<in> set (collapse_spaces s) \<Longrightarrow> c = 32 \<or> (c \<in> set s \<and> \<not> regex_space c)"
proof (induction s rule: collapse_spaces.induct)
  case 1
  then show ?case by simp
next
  case (2 a as)
  show ?case
  proof (cases "regex_space a")
    case True
    with 2(3) have "c = 32 \<or> c \<in> set (collapse_spaces (dropWhile regex_space as))" by simp
    then show ?thesis
    proof
      assume "c = 32" then show ?thesis by simp
    next
      assume "c \<in> set (collapse_spaces (dropWhile regex_space as))"
      from 2(1)[OF True this] show ?thesis by (auto dest: set_dropWhileD)
    qed
  next
    case False
    with 2(3) have "c = a \<or> c \<in> set (collapse_spaces as)" by simp
    then show ?thesis
    proof
      assume "c = a" with False show ?thesis by simp
    next
      assume "c \<in> set (collapse_spaces as)"
      from 2(2)[OF False this] show ?thesis by auto
    qed
  qed
qed

lemma py_strip_chars: "set (py_strip s) \<subseteq> set s"
  by (auto simp: py_strip_def dest!: set_dropWhileD)

lemma text_preprocess_output_clean:
  assumes "set x \<inter> set tone_marks = {}" "text_preprocess W x = Some y"
  shows "clean W y"
  unfolding clean_def list_all_iff
proof
  fix c assume c: "c \<in> set y"
  let ?t2 = "convert_unicode (remove_html_tags x)"
  let ?t3 = "py_join [32] (map standardized (py_split ?t2))"
  from assms(2) have y: "y = remove_unnecessary_characters W ?t3"
    by (simp add: text_preprocess_eq)
  have t2: "set ?t2 \<inter> set tone_marks = {}"
    by (rule convert_unicode_no_marks) (use remove_html_tags_chars[of x] assms(1) in blast)
  from c y have "c \<in> set (collapse_spaces (map (\<lambda>c. if kept_character W c then c else 32) ?t3))"
    using py_strip_chars by (auto simp: remove_unnecessary_characters_def)
  from collapse_spaces_chars[OF this]
  show "py_isspace c \<or> solid W c"
  proof
    assume "c = 32" then show ?thesis by (simp add: py_space_32)
  next
    assume a: "c \<in> set (map (\<lambda>c. if kept_character W c then c else 32) ?t3) \<and> \<not> regex_space c"
    then have ns: "\<not> regex_space c" by simp
    from a obtain d where d: "d \<in> set ?t3" "c = (if kept_character W d then d else 32)" by auto
    show ?thesis
    proof (cases "kept_character W d")
      case False
      with d show ?thesis by (simp add: py_space_32)
    next
      case True
      with d have cd: "c = d" by simp
      with True ns have word: "regex_word W c \<or> c \<in> set vietnamese_letters"
        by (simp add: kept_character_def)
      from join_chars[OF d(1)] cd have "c = 32 \<or> (\<exists>w \<in> set (map standardized (py_split ?t2)). c \<in> set w)"
        by simp
      then show ?thesis
      proof
        assume "c = 32" then show ?thesis by (simp add: py_space_32)
      next
        assume "\<exists>w \<in> set (map standardized (py_split ?t2)). c \<in> set w"
        then obtain w where w: "w \<in> set (py_split ?t2)" "c \<in> set (standardized w)" by auto
        from standardized_chars[OF w(2)] show ?thesis
        proof
          assume "c \<in> set w"
          with py_split_words[OF w(1)] have "\<not> py_isspace c" "c \<in> set ?t2" by auto
          with t2 word show ?thesis by (auto simp: solid_def)
        next
          assume "vowels_to_ids [c] \<noteq> None"
          then have "solid W c" by (rule vowel_solid)
          then show ?thesis by simp
        qed
      qed
    qed
  qed
qed

lemma map_of_filter_distinct:
  "distinct (map fst xs) \<Longrightarrow> (k, v) \<in> set xs \<Longrightarrow>
   map_of (filter P xs) k = (if P (k, v) then Some v else None)"
proof (induction xs)
  case Nil
  then show ?case by simp
next
  case (Cons x xs)
  show ?case
  proof (cases "x = (k, v)")
    case True
    with Cons.prems(1) have "k \<notin> fst ` set xs" by auto
    then have "k \<notin> fst ` set (filter P xs)" by auto
    then have "map_of (filter P xs) k = None" by (simp add: map_of_eq_None_iff)
    with True show ?thesis by simp
  next
    case False
    with Cons.prems have in_xs: "(k, v) \<in> set xs" by simp
    then have "k \<in> fst ` set xs" by force
    with Cons.prems(1) have "fst x \<noteq> k" by auto
    with Cons.IH in_xs Cons.prems(1) show ?thesis by (cases x) auto
  qed
qed

lemma filter_laws_by_length_eq:
  "filter_laws_by_length W laws m =
     Some (map (\<lambda>(n, c). (n, the (text_preprocess W c)))
            (filter (\<lambda>(n, c). m \<le> int (count_words_in_text c)) laws))"
  by (induction laws) (auto simp: text_preprocess_eq)

lemma text_preprocess_clean_fixed:
  assumes "clean W s"
  shows "\<exists>z. text_preprocess W s = Some z \<and> text_preprocess W z = Some z"
proof -
  let ?ws = "map standardized (py_split s)"
  let ?y = "py_join [32] ?ws"
  have n: "normal W ?ws" by (rule standardized_words_normal[OF assms])
  have y: "text_preprocess W s = Some ?y" by (rule text_preprocess_clean[OF assms])
  have "text_preprocess W ?y = Some (py_join [32] (map standardized (py_split ?y)))"
    by (rule text_preprocess_clean[OF normal_join_clean[OF n]])
  also have "py_split ?y = ?ws" by (rule normal_split_join[OF n])
  also have "map standardized ?ws = ?ws" by (simp add: standardized_idem)
  finally have "text_preprocess W ?y = Some ?y" .
  with y show ?thesis by blast
qed

section \<open>The normalizer and the length filter: the claims\<close>

text \<open>
  C3, as amended. \<open>text_preprocess\<close> is total: it returns a string for every input,
  whatever the table of word characters. It returns a fixed point of itself for every
  clean input (whitespace and kept characters only, no combining tone mark); and for
  every input without combining tone marks its result is clean, so that a second pass
  returns a fixed point.
\<close>

theorem text_preprocess_total_and_stable:
  "\<exists>y. text_preprocess W x = Some y \<and>
       (clean W x \<longrightarrow> text_preprocess W y = Some y) \<and>
       (set x \<inter> set tone_marks = {} \<longrightarrow>
          (\<exists>z. text_preprocess W y = Some z \<and> text_preprocess W z = Some z))"
proof -
  obtain y where y: "text_preprocess W x = Some y" by (simp add: text_preprocess_eq)
  have a: "clean W x \<longrightarrow> text_preprocess W y = Some y"
  proof
    assume "clean W x"
    from text_preprocess_clean_fixed[OF this] y show "text_preprocess W y = Some y" by auto
  qed
  have b: "set x \<inter> set tone_marks = {} \<longrightarrow>
          (\<exists>z. text_preprocess W y = Some z \<and> text_preprocess W z = Some z)"
  proof
    assume "set x \<inter> set tone_marks = {}"
    then have "clean W y" using y by (rule text_preprocess_output_clean)
    then show "\<exists>z. text_preprocess W y = Some z \<and> text_preprocess W z = Some z"
      by (rule text_preprocess_clean_fixed)
  qed
  from y a b show ?thesis by blast
qed

text \<open>Witness for C3: two words, the tone of the first moves to its second vowel.\<close>

theorem text_preprocess_total_and_stable_witness:
  "clean latin_letters [104, 242, 97, 32, 32, 120] \<and>
   set [104, 242, 97, 32, 32, 120] \<inter> set tone_marks = {} \<and>
   text_preprocess latin_letters [104, 242, 97, 32, 32, 120] = Some [104, 111, 224, 32, 120] \<and>
   text_preprocess latin_letters [104, 111, 224, 32, 120] = Some [104, 111, 224, 32, 120]"
proof -
  have c: "clean latin_letters [104, 242, 97, 32, 32, 120]"
    by (simp add: clean_def solid_def py_isspace_def regex_word_def vietnamese_letters_def
          tone_marks_def)
  have m: "set [104, 242, 97, 32, 32, 120] \<inter> set tone_marks = {}"
    by (simp add: tone_marks_def)
  have e: "text_preprocess latin_letters [104, 242, 97, 32, 32, 120] = Some [104, 111, 224, 32, 120]"
    by (subst text_preprocess_plain) (simp_all add: tone_marks_def normalizer_eval)
  from text_preprocess_total_and_stable[of latin_letters "[104, 242, 97, 32, 32, 120]"] c e
  have "text_preprocess latin_letters [104, 111, 224, 32, 120] = Some [104, 111, 224, 32, 120]"
    by auto
  with c m e show ?thesis by blast
qed

text \<open>
  Counterexample to C3 as stated: the comma inside the word is replaced by a space
  after the tone was placed for the whole word, so the second pass sees two words and
  moves the tone of the second.
\<close>

theorem text_preprocess_not_idempotent_counterexample:
  "text_preprocess latin_letters [97, 44, 225, 97] = Some [97, 32, 225, 97] \<and>
   text_preprocess latin_letters [97, 32, 225, 97] = Some [97, 32, 97, 225]"
proof -
  have a: "text_preprocess latin_letters [97, 44, 225, 97] = Some [97, 32, 225, 97]"
    by (subst text_preprocess_plain) (simp_all add: tone_marks_def normalizer_eval)
  have b: "text_preprocess latin_letters [97, 32, 225, 97] = Some [97, 32, 97, 225]"
    by (subst text_preprocess_plain) (simp_all add: tone_marks_def normalizer_eval)
  from a b show ?thesis by simp
qed

text \<open>
  C6. For every dictionary, threshold and unit of the dictionary, the filter returns
  normally; the unit is retained exactly when the number of whitespace-separated tokens
  of its raw text is at least the threshold, so a unit with exactly \<open>min_word\<close>
  tokens is retained and one with \<open>min_word - 1\<close> is dropped; and a retained unit is
  stored with its normalized text.
\<close>

theorem filter_laws_by_length_boundary:
  assumes "distinct (map fst laws)" and "(number, content) \<in> set laws"
  shows "\<exists>filtered normalized.
     filter_laws_by_length W laws min_word = Some filtered \<and>
     text_preprocess W content = Some normalized \<and>
     map_of filtered number =
       (if min_word \<le> int (count_words_in_text content) then Some normalized else None) \<and>
     (int (count_words_in_text content) = min_word \<longrightarrow> map_of filtered number = Some normalized) \<and>
     (int (count_words_in_text content) = min_word - 1 \<longrightarrow> map_of filtered number = None)"
proof -
  let ?P = "\<lambda>(n, c). min_word \<le> int (count_words_in_text c)"
  let ?f = "\<lambda>c. the (text_preprocess W c)"
  let ?filtered = "map (\<lambda>(n, c). (n, ?f c)) (filter ?P laws)"
  have run: "filter_laws_by_length W laws min_word = Some ?filtered"
    by (rule filter_laws_by_length_eq)
  obtain normalized where nz: "text_preprocess W content = Some normalized"
    by (simp add: text_preprocess_eq)
  have "map_of ?filtered number = map_option ?f (map_of (filter ?P laws) number)"
    by (simp add: map_of_map)
  also have "\<dots> = (if min_word \<le> int (count_words_in_text content) then Some normalized else None)"
    using map_of_filter_distinct[OF assms, of ?P] nz by simp
  finally have look: "map_of ?filtered number =
      (if min_word \<le> int (count_words_in_text content) then Some normalized else None)" .
  from run nz look show ?thesis by (intro exI[of _ ?filtered] exI[of _ normalized]) simp
qed

text \<open>
  Witness for C6: the first unit has three raw tokens and two after normalization; with
  the threshold 3 it is retained, and the second unit, with two tokens, is dropped.
\<close>

theorem filter_laws_by_length_boundary_witness:
  "(\<exists>filtered. filter_laws_by_length latin_letters
        [(1, [97, 32, 44, 32, 98]), (2, [99, 32, 100])] 3 = Some filtered \<and>
      map_of filtered 1 = Some [97, 32, 98] \<and> map_of filtered 2 = None) \<and>
   count_words_in_text [97, 32, 44, 32, 98] = 3 \<and> count_words_in_text [97, 32, 98] = 2 \<and>
   count_words_in_text [99, 32, 100] = 2"
proof -
  let ?laws = "[(1, [97, 32, 44, 32, 98]), (2, [99, 32, 100::nat])] :: ustring pydict"
  have d: "distinct (map fst ?laws)" by simp
  have m1: "(1, [97, 32, 44, 32, 98]) \<in> set ?laws" by simp
  have m2: "(2, [99, 32, 100]) \<in> set ?laws" by simp
  have c1: "count_words_in_text [97, 32, 44, 32, 98] = 3"
    by (simp add: count_words_in_text_def py_split_def py_isspace_def)
  have c2: "count_words_in_text [99, 32, 100] = 2"
    by (simp add: count_words_in_text_def py_split_def py_isspace_def)
  have c3: "count_words_in_text [97, 32, 98] = 2"
    by (simp add: count_words_in_text_def py_split_def py_isspace_def)
  have e: "text_preprocess latin_letters [97, 32, 44, 32, 98] = Some [97, 32, 98]"
    by (subst text_preprocess_plain) (simp_all add: tone_marks_def normalizer_eval)
  from filter_laws_by_length_boundary[OF d m1, of latin_letters 3] c1 e
  obtain filtered where f: "filter_laws_by_length latin_letters ?laws 3 = Some filtered"
    and l1: "map_of filtered 1 = Some [97, 32, 98]" by auto
  from filter_laws_by_length_boundary[OF d m2, of latin_letters 3] c2 f
  have l2: "map_of filtered 2 = None" by auto
  from f l1 l2 c1 c2 c3 show ?thesis by blast
qed

end
